theory Spec2Isabelle
  imports Complex_Main "HOL-Library.Word" "HOL-Library.Multiset"
begin

section \<open>Basic types\<close>

text \<open>
  \<^verbatim>\<open>Distance\<close> is \<^verbatim>\<open>uint16_t\<close> (SimilarityMatrix.hpp, the default build without
  \<^verbatim>\<open>USE_DOUBLE_DIST\<close>). A packed k-mer word is a 16-bit unsigned value as well (the
  comment on \<^verbatim>\<open>Kmer::PackedEncoding\<close>), and an \<^verbatim>\<open>EncodedKmer\<close> points at the first
  word of a packed code: the model takes the words it points at.
\<close>

type_synonym Distance = "16 word"
type_synonym KmerWord = "16 word"
type_synonym EncodedKmer = "KmerWord list"

text \<open>
  A distance functor (\<^verbatim>\<open>DistanceFunction\<close>, the template parameter of \<^verbatim>\<open>KmerCluster\<close>
  and \<^verbatim>\<open>KMedoids\<close>): two packed codes and the k-mer length.
\<close>

type_synonym DistanceFunction = "EncodedKmer \<Rightarrow> EncodedKmer \<Rightarrow> nat \<Rightarrow> Distance"

text \<open>\<^verbatim>\<open>throw Exception(message, FileAndLine)\<close>: the message is kept.\<close>

datatype error = Exception string

section \<open>Kmer.hpp\<close>

text \<open>
  A \<^verbatim>\<open>Kmer\<close>: its character window, the (sequence, position) instances, the packed
  code of the first instance and the mutable distance from the prototype.
\<close>

record Kmer =
  substring :: string
  instances :: "(nat \<times> nat) list"
  encoding :: EncodedKmer
  distanceFromPrototype :: Distance

section \<open>KmerCluster.hpp\<close>

record KmerCluster =
  prototype :: Kmer
  kmers :: "Kmer list"
  expectedSize :: nat

text \<open>The constructor \<^verbatim>\<open>KmerCluster(prototype, expectedSize, distanceFunction)\<close>.\<close>

definition newKmerCluster :: "Kmer \<Rightarrow> nat \<Rightarrow> KmerCluster" where
  "newKmerCluster p n = \<lparr>prototype = p, kmers = [], expectedSize = n\<rparr>"

text \<open>\<^verbatim>\<open>AddParallel\<close>: \<^verbatim>\<open>kmers.push_back(kmer)\<close> under the cluster's lock.\<close>

definition AddParallel :: "KmerCluster \<Rightarrow> Kmer \<Rightarrow> KmerCluster" where
  "AddParallel c k = c\<lparr>kmers := kmers c @ [k]\<rparr>"

text \<open>\<^verbatim>\<open>std::swap(v[i], v[j])\<close> on a vector.\<close>

definition swap :: "nat \<Rightarrow> nat \<Rightarrow> 'a list \<Rightarrow> 'a list" where
  "swap i j xs = xs[i := xs ! j, j := xs ! i]"

text \<open>
  The inner loop of the scan: the clusters from \<^verbatim>\<open>j\<close> on are tried in order and the
  first one whose prototype is within the threshold wins (\<^verbatim>\<open>break\<close>). The result is the
  attractor's index and the distance found, or \<open>None\<close> when \<^verbatim>\<open>attractor\<close> stays null.
  The threshold is a \<^verbatim>\<open>double\<close>; the 16-bit distance is converted to it exactly for the
  comparison \<^verbatim>\<open>dist <= threshold\<close>. A finite threshold is represented by its real value.
\<close>

function findAttractor ::
  "DistanceFunction \<Rightarrow> nat \<Rightarrow> real \<Rightarrow> KmerCluster list \<Rightarrow> EncodedKmer \<Rightarrow> nat
    \<Rightarrow> (nat \<times> Distance) option" where
  "findAttractor symbolCodeDist K threshold cs kmerEncoding j =
     (if j < length cs then
        (let prototypeEncoding = encoding (prototype (cs ! j));
             dist = symbolCodeDist kmerEncoding prototypeEncoding K
         in if real (unat dist) \<le> threshold then Some (j, dist)
            else findAttractor symbolCodeDist K threshold cs kmerEncoding (j + 1))
      else None)"
  by pat_completeness auto
termination
  by (relation "measure (\<lambda>(d, K, t, cs, e, j). length cs - j)") auto

declare findAttractor.simps [simp del]

subsection \<open>The global variant\<close>

text \<open>
  What \<^verbatim>\<open>DoIncrementalClusteringParallel\<close> reads and writes through its reference
  parameters: the cluster list, the working array of k-mers and the high-water mark
  (a \<^verbatim>\<open>size_t\<close> in the first overload, one per thread in the banded overload).
  The array holds pointers to the index's k-mer records, each record once, so a write
  through \<^verbatim>\<open>kmers[i]\<close> is a write to element \<open>i\<close> of the list.
\<close>

record 'f ClusterState =
  clusters :: "KmerCluster list"
  allKmers :: "Kmer list"
  firstUnallocIndex :: 'f

text \<open>
  The seed phase: one new cluster per k-mer of
  \<^verbatim>\<open>kmers[firstUnallocIndex .. firstUnallocIndex + wanted)\<close>; the caller's
  \<^verbatim>\<open>createPrototype\<close> yields the prototype's singleton k-mer.
\<close>

definition seedClusters ::
  "(Kmer \<Rightarrow> Kmer) \<Rightarrow> nat \<Rightarrow> nat ClusterState \<Rightarrow> nat ClusterState" where
  "seedClusters createPrototype requestedClusterCount s =
     (let available = length (allKmers s) - firstUnallocIndex s;
          wanted = min requestedClusterCount available
      in s\<lparr>clusters := clusters s @
            map (\<lambda>i. newKmerCluster (createPrototype (allKmers s ! i)) 0)
              [firstUnallocIndex s ..< firstUnallocIndex s + wanted]\<rparr>)"

text \<open>
  The body of the scan loop for position \<open>i\<close>: one iteration of the
  \<^verbatim>\<open>#pragma omp parallel for\<close>, taken as one step. The swap and the increment of the
  high-water mark are the critical section; the read of \<^verbatim>\<open>kmers[i]\<close> and the search are
  outside it.
\<close>

definition scanKmer ::
  "DistanceFunction \<Rightarrow> nat \<Rightarrow> real \<Rightarrow> nat \<Rightarrow> nat \<Rightarrow> nat ClusterState
    \<Rightarrow> nat ClusterState" where
  "scanKmer symbolCodeDist K threshold firstClusterIndex i s =
     (let kmer = allKmers s ! i
      in case findAttractor symbolCodeDist K threshold (clusters s) (encoding kmer)
                firstClusterIndex of
           None \<Rightarrow> s
         | Some (j, attractorDistance) \<Rightarrow>
             (let kmer' = kmer\<lparr>distanceFromPrototype := attractorDistance\<rparr>;
                  cs = (clusters s)[j := AddParallel (clusters s ! j) kmer'];
                  ks = (allKmers s)[i := kmer'];
                  ks' = (if i > firstUnallocIndex s
                         then swap (firstUnallocIndex s) i ks else ks)
              in s\<lparr>clusters := cs, allKmers := ks',
                   firstUnallocIndex := firstUnallocIndex s + 1\<rparr>))"

function scanLoop ::
  "DistanceFunction \<Rightarrow> nat \<Rightarrow> real \<Rightarrow> nat \<Rightarrow> nat \<Rightarrow> nat ClusterState
    \<Rightarrow> nat ClusterState" where
  "scanLoop symbolCodeDist K threshold firstClusterIndex i s =
     (if i < length (allKmers s)
      then scanLoop symbolCodeDist K threshold firstClusterIndex (i + 1)
             (scanKmer symbolCodeDist K threshold firstClusterIndex i s)
      else s)"
  by pat_completeness auto
termination
  apply (relation "measure (\<lambda>(d, K, t, f, i, s). length (allKmers s) - i)")
   apply (auto simp: scanKmer_def swap_def Let_def split: option.splits)
  done

declare scanLoop.simps [simp del]

text \<open>
  The scan phase on one thread: the iterations of the loop in index order, from the
  high-water mark at entry to the end of the array.
\<close>

definition scanPhase ::
  "DistanceFunction \<Rightarrow> nat \<Rightarrow> real \<Rightarrow> nat \<Rightarrow> nat ClusterState \<Rightarrow> nat ClusterState" where
  "scanPhase symbolCodeDist K threshold firstClusterIndex s =
     scanLoop symbolCodeDist K threshold firstClusterIndex (firstUnallocIndex s) s"

text \<open>
  The scan phase on a team of threads: the loop bounds are fixed at entry and every index
  of \<^verbatim>\<open>[firstUnallocIndex, kmers.size())\<close> is the iteration of some thread; the iterations
  of different threads interleave. \<open>order\<close> is the order in which the iterations run,
  each of them as one step; the index order is the schedule of one thread.
\<close>

definition scanInterleaved ::
  "DistanceFunction \<Rightarrow> nat \<Rightarrow> real \<Rightarrow> nat \<Rightarrow> nat list \<Rightarrow> nat ClusterState
    \<Rightarrow> nat ClusterState" where
  "scanInterleaved symbolCodeDist K threshold firstClusterIndex order s =
     foldl (\<lambda>s i. scanKmer symbolCodeDist K threshold firstClusterIndex i s) s order"

text \<open>
  \<^verbatim>\<open>DoIncrementalClusteringParallel\<close>, first overload, with the scan on one thread. An
  exception leaves the caller with the state as it is at the \<^verbatim>\<open>throw\<close>, which \<open>Inl\<close>
  carries.
\<close>

definition DoIncrementalClusteringParallel ::
  "nat \<Rightarrow> real \<Rightarrow> DistanceFunction \<Rightarrow> nat \<Rightarrow> nat \<Rightarrow> (Kmer \<Rightarrow> Kmer)
    \<Rightarrow> nat ClusterState \<Rightarrow> (error \<times> nat ClusterState) + nat ClusterState" where
  "DoIncrementalClusteringParallel K threshold symbolCodeDist requestedClusterCount
       firstClusterIndex createPrototype s =
     (if length (clusters s) = 0 \<and> requestedClusterCount = 0
      then Inl (Exception ''clusters.size() == 0 && requestedClusterCount == 0'', s)
      else
        (let s1 = (if requestedClusterCount > 0
                   then seedClusters createPrototype requestedClusterCount s else s)
         in Inr (scanPhase symbolCodeDist K threshold firstClusterIndex s1)))"

text \<open>
  The setup filter of \<^verbatim>\<open>DoExhaustiveIncrementalClustering\<close>. The loop header
  increments \<open>i\<close> and the body ends with an \<^verbatim>\<open>i++\<close> of its own, so the index advances
  by two; the high-water mark moves only inside \<^verbatim>\<open>if (i > firstUnallocIndex)\<close>.
\<close>

function filterLoop ::
  "DistanceFunction \<Rightarrow> nat \<Rightarrow> real \<Rightarrow> nat \<Rightarrow> nat \<Rightarrow> nat ClusterState
    \<Rightarrow> nat ClusterState" where
  "filterLoop distanceFunction wordLength threshold N i s =
     (if i < N then
        (let kmer = allKmers s ! i;
             enc = encoding kmer;
             selfMatchDistance = distanceFunction enc enc wordLength;
             s' = (if real (unat selfMatchDistance) > threshold
                   then (if i > firstUnallocIndex s
                         then s\<lparr>allKmers := swap i (firstUnallocIndex s) (allKmers s),
                                firstUnallocIndex := firstUnallocIndex s + 1\<rparr>
                         else s)
                   else s)
         in filterLoop distanceFunction wordLength threshold N ((i + 1) + 1) s')
      else s)"
  by pat_completeness auto
termination
  by (relation "measure (\<lambda>(d, w, t, N, i, s). N - i)") auto

declare filterLoop.simps [simp del]

text \<open>
  \<^verbatim>\<open>UniformRealRandom\<close>: the generator is the sequence of values it is going to
  return; a call takes the first and leaves the rest.
\<close>

type_synonym UniformRealRandom = "nat \<Rightarrow> real"

definition nextRand :: "UniformRealRandom \<Rightarrow> real \<times> UniformRealRandom" where
  "nextRand rand = (rand 0, \<lambda>n. rand (Suc n))"

text \<open>
  The shuffle of the working range \<^verbatim>\<open>[base, endIdx)\<close>:
  \<^verbatim>\<open>newLoc = base + (size_t)(rand() * (endIdx - base))\<close>.
\<close>

function shuffleLoop ::
  "nat \<Rightarrow> nat \<Rightarrow> nat \<Rightarrow> Kmer list \<Rightarrow> UniformRealRandom
    \<Rightarrow> Kmer list \<times> UniformRealRandom" where
  "shuffleLoop base endIdx i ks rand =
     (if i < endIdx then
        (let (r, rand') = nextRand rand;
             newLoc = base + nat \<lfloor>r * real (endIdx - base)\<rfloor>
         in shuffleLoop base endIdx (i + 1) (swap i newLoc ks) rand')
      else (ks, rand))"
  by pat_completeness auto
termination
  by (relation "measure (\<lambda>(b, e, i, ks, r). e - i)") (auto simp: nextRand_def)

declare shuffleLoop.simps [simp del]

text \<open>
  The pass loop of \<^verbatim>\<open>DoExhaustiveIncrementalClustering\<close>:
  \<^verbatim>\<open>while (firstUnallocIndex < N)\<close> with its \<^verbatim>\<open>break\<close> when a pass moves nothing.
\<close>

function (domintros) passLoop ::
  "nat \<Rightarrow> real \<Rightarrow> DistanceFunction \<Rightarrow> nat \<Rightarrow> (Kmer \<Rightarrow> Kmer) \<Rightarrow> nat \<Rightarrow> nat \<Rightarrow> nat
    \<Rightarrow> nat ClusterState \<Rightarrow> (error \<times> nat ClusterState) + nat ClusterState" where
  "passLoop wordLength threshold distanceFunction clusterIncrement createPrototype N
       firstClusterIndex increment s =
     (if firstUnallocIndex s < N then
        (let previous = firstUnallocIndex s
         in case DoIncrementalClusteringParallel wordLength threshold distanceFunction
                   increment firstClusterIndex createPrototype s of
              Inl e \<Rightarrow> Inl e
            | Inr s' \<Rightarrow>
                if firstUnallocIndex s' = previous then Inr s'
                else passLoop wordLength threshold distanceFunction clusterIncrement
                       createPrototype N (length (clusters s')) clusterIncrement s')
      else Inr s)"
  by pat_completeness auto

text \<open>
  \<^verbatim>\<open>DoExhaustiveIncrementalClustering\<close>, global variant. \<open>kmerIndex\<close> is the list
  \<^verbatim>\<open>kmerIndex.GetKmers()\<close>, of \<^verbatim>\<open>kmerIndex.size()\<close> records. The setup phase is the
  filter and the shuffle; the result of the run is the state it ends in: the caller's
  cluster list, and the local working array and high-water mark as they are when the
  function returns or throws.
\<close>

definition setupPhase ::
  "Kmer list \<Rightarrow> nat \<Rightarrow> real \<Rightarrow> DistanceFunction \<Rightarrow> UniformRealRandom \<Rightarrow> KmerCluster list
    \<Rightarrow> nat ClusterState" where
  "setupPhase kmerIndex wordLength threshold distanceFunction rand cs =
     (let N = length kmerIndex;
          s0 = \<lparr>clusters = cs, allKmers = kmerIndex, firstUnallocIndex = 0\<rparr>;
          s1 = filterLoop distanceFunction wordLength threshold N 0 s0;
          (ks, rand') = shuffleLoop (firstUnallocIndex s1) N (firstUnallocIndex s1)
                          (allKmers s1) rand
      in s1\<lparr>allKmers := ks\<rparr>)"

definition DoExhaustiveIncrementalClustering ::
  "Kmer list \<Rightarrow> nat \<Rightarrow> real \<Rightarrow> DistanceFunction \<Rightarrow> UniformRealRandom \<Rightarrow> nat
    \<Rightarrow> (Kmer \<Rightarrow> Kmer) \<Rightarrow> KmerCluster list
    \<Rightarrow> (error \<times> nat ClusterState) + nat ClusterState" where
  "DoExhaustiveIncrementalClustering kmerIndex wordLength threshold distanceFunction rand
       clusterIncrement createPrototype cs =
     (let N = length kmerIndex;
          s2 = setupPhase kmerIndex wordLength threshold distanceFunction rand cs;
          firstClusterIndex = 0;
          increment = (if length cs > 0 then 0 else clusterIncrement)
      in passLoop wordLength threshold distanceFunction clusterIncrement createPrototype N
           firstClusterIndex increment s2)"

subsection \<open>The banded variant\<close>

text \<open>
  Thread \<open>threadId\<close> of \<open>numThreads\<close> owns the band
  \<^verbatim>\<open>[threadId * N / numThreads, (threadId + 1) * N / numThreads)\<close>. The number of threads
  that execute a \<^verbatim>\<open>#pragma omp parallel\<close> region is the runtime's: \<open>team\<close>, with thread
  numbers \<open>0 .. team - 1\<close>. The caller asks for \<open>numThreads\<close> of them
  (\<^verbatim>\<open>omp_set_num_threads\<close>), the runtime may grant fewer, and a build without OpenMP
  runs the region once, as thread 0. A thread number of \<open>numThreads\<close> or more would index
  past the vector of marks, so \<open>team \<le> numThreads\<close>. The threads of a region are run one
  after the other in thread order; the bands are disjoint and a thread writes only its own
  band and its own high-water mark.
\<close>

definition beginIdx :: "nat \<Rightarrow> nat \<Rightarrow> nat \<Rightarrow> nat" where
  "beginIdx N numThreads threadId = (threadId * N) div numThreads"

definition endIdx :: "nat \<Rightarrow> nat \<Rightarrow> nat \<Rightarrow> nat" where
  "endIdx N numThreads threadId = ((threadId + 1) * N) div numThreads"

text \<open>The seed phase of the banded overload, for one thread and for all of them.\<close>

definition seedClustersThread ::
  "(Kmer \<Rightarrow> Kmer) \<Rightarrow> nat \<Rightarrow> nat \<Rightarrow> nat \<Rightarrow> (nat list) ClusterState
    \<Rightarrow> (nat list) ClusterState" where
  "seedClustersThread createPrototype requestedClusterCount numThreads threadId s =
     (let N = length (allKmers s);
          available = endIdx N numThreads threadId - firstUnallocIndex s ! threadId;
          desired = ((threadId + 1) * requestedClusterCount) div numThreads
                      - (threadId * requestedClusterCount) div numThreads;
          wanted = min desired available
      in s\<lparr>clusters := clusters s @
            map (\<lambda>i. newKmerCluster (createPrototype (allKmers s ! i)) 0)
              [firstUnallocIndex s ! threadId ..< firstUnallocIndex s ! threadId + wanted]\<rparr>)"

definition seedClustersBanded ::
  "(Kmer \<Rightarrow> Kmer) \<Rightarrow> nat \<Rightarrow> nat \<Rightarrow> (nat list) ClusterState
    \<Rightarrow> (nat list) ClusterState" where
  "seedClustersBanded createPrototype requestedClusterCount numThreads s =
     foldl (\<lambda>s threadId.
              seedClustersThread createPrototype requestedClusterCount numThreads threadId s)
       s [0 ..< numThreads]"

text \<open>
  The body of a thread's scan loop. Here the high-water mark moves only inside
  \<^verbatim>\<open>if (i > firstUnallocIndex[threadId])\<close>.
\<close>

definition scanKmerBanded ::
  "DistanceFunction \<Rightarrow> nat \<Rightarrow> real \<Rightarrow> nat \<Rightarrow> nat \<Rightarrow> nat \<Rightarrow> (nat list) ClusterState
    \<Rightarrow> (nat list) ClusterState" where
  "scanKmerBanded symbolCodeDist K threshold firstClusterIndex threadId i s =
     (let kmer = allKmers s ! i
      in case findAttractor symbolCodeDist K threshold (clusters s) (encoding kmer)
                firstClusterIndex of
           None \<Rightarrow> s
         | Some (j, attractorDistance) \<Rightarrow>
             (let kmer' = kmer\<lparr>distanceFromPrototype := attractorDistance\<rparr>;
                  cs = (clusters s)[j := AddParallel (clusters s ! j) kmer'];
                  ks = (allKmers s)[i := kmer'];
                  f = firstUnallocIndex s ! threadId
              in if i > f
                 then s\<lparr>clusters := cs, allKmers := swap f i ks,
                        firstUnallocIndex := (firstUnallocIndex s)[threadId := f + 1]\<rparr>
                 else s\<lparr>clusters := cs, allKmers := ks\<rparr>))"

function scanLoopBanded ::
  "DistanceFunction \<Rightarrow> nat \<Rightarrow> real \<Rightarrow> nat \<Rightarrow> nat \<Rightarrow> nat \<Rightarrow> nat \<Rightarrow> (nat list) ClusterState
    \<Rightarrow> (nat list) ClusterState" where
  "scanLoopBanded symbolCodeDist K threshold firstClusterIndex threadId endIdx' i s =
     (if i < endIdx'
      then scanLoopBanded symbolCodeDist K threshold firstClusterIndex threadId endIdx'
             (i + 1) (scanKmerBanded symbolCodeDist K threshold firstClusterIndex threadId i s)
      else s)"
  by pat_completeness auto
termination
  by (relation "measure (\<lambda>(d, K, t, f, th, e, i, s). e - i)") auto

declare scanLoopBanded.simps [simp del]

definition scanThread ::
  "DistanceFunction \<Rightarrow> nat \<Rightarrow> real \<Rightarrow> nat \<Rightarrow> nat \<Rightarrow> nat \<Rightarrow> (nat list) ClusterState
    \<Rightarrow> (nat list) ClusterState" where
  "scanThread symbolCodeDist K threshold firstClusterIndex numThreads threadId s =
     scanLoopBanded symbolCodeDist K threshold firstClusterIndex threadId
       (endIdx (length (allKmers s)) numThreads threadId)
       (firstUnallocIndex s ! threadId) s"

text \<open>The scan phase of the banded overload: every thread of the team scans its band.\<close>

definition scanPhaseBanded ::
  "DistanceFunction \<Rightarrow> nat \<Rightarrow> real \<Rightarrow> nat \<Rightarrow> nat \<Rightarrow> nat \<Rightarrow> (nat list) ClusterState
    \<Rightarrow> (nat list) ClusterState" where
  "scanPhaseBanded symbolCodeDist K threshold firstClusterIndex numThreads team s =
     foldl (\<lambda>s threadId.
              scanThread symbolCodeDist K threshold firstClusterIndex numThreads threadId s)
       s [0 ..< team]"

text \<open>\<^verbatim>\<open>DoIncrementalClusteringParallel\<close>, banded overload.\<close>

definition DoIncrementalClusteringParallelBanded ::
  "nat \<Rightarrow> real \<Rightarrow> DistanceFunction \<Rightarrow> nat \<Rightarrow> nat \<Rightarrow> (Kmer \<Rightarrow> Kmer) \<Rightarrow> nat \<Rightarrow> nat
    \<Rightarrow> (nat list) ClusterState
    \<Rightarrow> (error \<times> (nat list) ClusterState) + (nat list) ClusterState" where
  "DoIncrementalClusteringParallelBanded K threshold symbolCodeDist requestedClusterCount
       firstClusterIndex createPrototype numThreads team s =
     (if length (clusters s) = 0 \<and> requestedClusterCount = 0
      then Inl (Exception ''clusters.size() == 0 && requestedClusterCount == 0'', s)
      else
        (let s1 = (if requestedClusterCount > 0
                   then seedClustersBanded createPrototype requestedClusterCount numThreads s
                   else s)
         in Inr (scanPhaseBanded symbolCodeDist K threshold firstClusterIndex numThreads
                   team s1)))"

text \<open>
  \<^verbatim>\<open>GetUnallocated\<close>: despite its name, the number of allocated k-mers. The difference and
  the sum are taken in \<^verbatim>\<open>size_t\<close>, 64 bits without sign: a mark below the start of its band
  gives a difference that wraps around.
\<close>

definition GetUnallocated :: "nat \<Rightarrow> nat \<Rightarrow> nat list \<Rightarrow> nat" where
  "GetUnallocated numThreads N firstUnallocIndex' =
     unat (foldl (\<lambda>(numAllocated :: 64 word) i.
                    numAllocated + (word_of_nat (firstUnallocIndex' ! i)
                                      - word_of_nat (beginIdx N numThreads i)))
             0 [0 ..< numThreads])"

text \<open>The banded setup filter and a thread's whole setup (mark, filter, shuffle).\<close>

function filterLoopBanded ::
  "DistanceFunction \<Rightarrow> nat \<Rightarrow> real \<Rightarrow> nat \<Rightarrow> nat \<Rightarrow> nat \<Rightarrow> (nat list) ClusterState
    \<Rightarrow> (nat list) ClusterState" where
  "filterLoopBanded distanceFunction wordLength threshold threadId endIdx' i s =
     (if i < endIdx' then
        (let kmer = allKmers s ! i;
             enc = encoding kmer;
             selfMatchDistance = distanceFunction enc enc wordLength;
             f = firstUnallocIndex s ! threadId;
             s' = (if real (unat selfMatchDistance) > threshold
                   then (if i > f
                         then s\<lparr>allKmers := swap i f (allKmers s),
                                firstUnallocIndex := (firstUnallocIndex s)[threadId := f + 1]\<rparr>
                         else s)
                   else s)
         in filterLoopBanded distanceFunction wordLength threshold threadId endIdx' (i + 1) s')
      else s)"
  by pat_completeness auto
termination
  by (relation "measure (\<lambda>(d, w, t, th, e, i, s). e - i)") auto

declare filterLoopBanded.simps [simp del]

definition setupThread ::
  "DistanceFunction \<Rightarrow> nat \<Rightarrow> real \<Rightarrow> nat \<Rightarrow> nat
    \<Rightarrow> (nat list) ClusterState \<times> UniformRealRandom
    \<Rightarrow> (nat list) ClusterState \<times> UniformRealRandom" where
  "setupThread distanceFunction wordLength threshold numThreads threadId sr =
     (let (s, rand) = sr;
          N = length (allKmers s);
          b = beginIdx N numThreads threadId;
          e = endIdx N numThreads threadId;
          s1 = s\<lparr>firstUnallocIndex := (firstUnallocIndex s)[threadId := b]\<rparr>;
          s2 = filterLoopBanded distanceFunction wordLength threshold threadId e b s1;
          f = firstUnallocIndex s2 ! threadId;
          (ks, rand') = shuffleLoop f e f (allKmers s2) rand
      in (s2\<lparr>allKmers := ks\<rparr>, rand'))"

text \<open>The banded pass loop: \<^verbatim>\<open>while (numAllocated < N)\<close>.\<close>

function (domintros) passLoopBanded ::
  "nat \<Rightarrow> real \<Rightarrow> DistanceFunction \<Rightarrow> nat \<Rightarrow> (Kmer \<Rightarrow> Kmer) \<Rightarrow> nat \<Rightarrow> nat \<Rightarrow> nat \<Rightarrow> nat
    \<Rightarrow> nat \<Rightarrow> nat \<Rightarrow> (nat list) ClusterState
    \<Rightarrow> (error \<times> (nat list) ClusterState) + (nat list) ClusterState" where
  "passLoopBanded wordLength threshold distanceFunction clusterIncrement createPrototype
       numThreads team N numAllocated firstClusterIndex increment s =
     (if numAllocated < N then
        (let previous = numAllocated
         in case DoIncrementalClusteringParallelBanded wordLength threshold distanceFunction
                   increment firstClusterIndex createPrototype numThreads team s of
              Inl e \<Rightarrow> Inl e
            | Inr s' \<Rightarrow>
                (let numAllocated' = GetUnallocated numThreads N (firstUnallocIndex s')
                 in if numAllocated' = previous then Inr s'
                    else passLoopBanded wordLength threshold distanceFunction clusterIncrement
                           createPrototype numThreads team N numAllocated'
                           (length (clusters s')) clusterIncrement s'))
      else Inr s)"
  by pat_completeness auto

text \<open>
  \<^verbatim>\<open>DoExhaustiveIncrementalClustering\<close>, banded variant. The vector of marks is created
  with \<open>numThreads\<close> zeros; the setup region sets the mark of each thread of the team.
\<close>

definition setupPhaseBanded ::
  "Kmer list \<Rightarrow> nat \<Rightarrow> real \<Rightarrow> DistanceFunction \<Rightarrow> UniformRealRandom \<Rightarrow> KmerCluster list
    \<Rightarrow> nat \<Rightarrow> nat \<Rightarrow> (nat list) ClusterState" where
  "setupPhaseBanded kmerIndex wordLength threshold distanceFunction rand cs numThreads team =
     (let s0 = \<lparr>clusters = cs, allKmers = kmerIndex,
                firstUnallocIndex = replicate numThreads 0\<rparr>
      in fst (foldl (\<lambda>sr threadId.
                       setupThread distanceFunction wordLength threshold numThreads
                         threadId sr)
                (s0, rand) [0 ..< team]))"

definition DoExhaustiveIncrementalClusteringBanded ::
  "Kmer list \<Rightarrow> nat \<Rightarrow> real \<Rightarrow> DistanceFunction \<Rightarrow> UniformRealRandom \<Rightarrow> nat
    \<Rightarrow> (Kmer \<Rightarrow> Kmer) \<Rightarrow> KmerCluster list \<Rightarrow> nat \<Rightarrow> nat
    \<Rightarrow> (error \<times> (nat list) ClusterState) + (nat list) ClusterState" where
  "DoExhaustiveIncrementalClusteringBanded kmerIndex wordLength threshold distanceFunction
       rand clusterIncrement createPrototype cs numThreads team =
     (let N = length kmerIndex;
          s1 = setupPhaseBanded kmerIndex wordLength threshold distanceFunction rand cs
                 numThreads team;
          firstClusterIndex = 0;
          increment = (if length cs > 0 then 0 else clusterIncrement);
          numAllocated = GetUnallocated numThreads N (firstUnallocIndex s1)
      in passLoopBanded wordLength threshold distanceFunction clusterIncrement
           createPrototype numThreads team N numAllocated firstClusterIndex increment s1)"

subsection \<open>Vocabulary of the claims\<close>

text \<open>
  The state a run ends in, whether it returned or threw.
\<close>

definition finalState :: "(error \<times> 's) + 's \<Rightarrow> 's" where
  "finalState r = (case r of Inl (e, s) \<Rightarrow> s | Inr s \<Rightarrow> s)"

text \<open>
  Every member of every cluster is within the threshold of its cluster's prototype,
  measured as the scan measures it: \<^verbatim>\<open>symbolCodeDist(kmerEncoding, prototypeEncoding, K)\<close>
  compared with \<^verbatim>\<open><= threshold\<close>.
\<close>

definition membersWithin :: "DistanceFunction \<Rightarrow> nat \<Rightarrow> real \<Rightarrow> KmerCluster list \<Rightarrow> bool" where
  "membersWithin symbolCodeDist K threshold cs =
     list_all (\<lambda>c. list_all (\<lambda>m. real (unat (symbolCodeDist (encoding m)
                                        (encoding (prototype c)) K)) \<le> threshold)
                  (kmers c)) cs"

text \<open>
  One vector of per-thread high-water marks is pointwise below another of the same
  length.
\<close>

definition marksLe :: "nat list \<Rightarrow> nat list \<Rightarrow> bool" where
  "marksLe f f' = (length f = length f' \<and> (\<forall>u. f ! u \<le> f' ! u))"

text \<open>
  What one iteration of the scan does to the cluster list for the k-mer \<open>k\<close> it visits.
\<close>

definition assignKmer ::
  "DistanceFunction \<Rightarrow> nat \<Rightarrow> real \<Rightarrow> nat \<Rightarrow> KmerCluster list \<Rightarrow> Kmer \<Rightarrow> KmerCluster list" where
  "assignKmer symbolCodeDist K threshold firstClusterIndex cs k =
     (case findAttractor symbolCodeDist K threshold cs (encoding k) firstClusterIndex of
        None \<Rightarrow> cs
      | Some (j, attractorDistance) \<Rightarrow>
          cs[j := AddParallel (cs ! j) (k\<lparr>distanceFromPrototype := attractorDistance\<rparr>)])"

text \<open>
  Cluster \<open>j\<close> fits the k-mer \<open>k\<close>: it is one of the scanned clusters and its prototype
  is within the threshold. Cluster \<open>j\<close> is the first fit when no scanned cluster before
  it fits.
\<close>

definition fits ::
  "DistanceFunction \<Rightarrow> nat \<Rightarrow> real \<Rightarrow> nat \<Rightarrow> KmerCluster list \<Rightarrow> Kmer \<Rightarrow> nat \<Rightarrow> bool" where
  "fits symbolCodeDist K threshold firstClusterIndex cs k j =
     (firstClusterIndex \<le> j \<and> j < length cs \<and>
      real (unat (symbolCodeDist (encoding k) (encoding (prototype (cs ! j))) K)) \<le> threshold)"

definition firstFit ::
  "DistanceFunction \<Rightarrow> nat \<Rightarrow> real \<Rightarrow> nat \<Rightarrow> KmerCluster list \<Rightarrow> Kmer \<Rightarrow> nat \<Rightarrow> bool" where
  "firstFit symbolCodeDist K threshold firstClusterIndex cs k j =
     (fits symbolCodeDist K threshold firstClusterIndex cs k j \<and>
      list_all (\<lambda>j'. \<not> fits symbolCodeDist K threshold firstClusterIndex cs k j') [0 ..< j])"

definition fitsNone ::
  "DistanceFunction \<Rightarrow> nat \<Rightarrow> real \<Rightarrow> nat \<Rightarrow> KmerCluster list \<Rightarrow> Kmer \<Rightarrow> bool" where
  "fitsNone symbolCodeDist K threshold firstClusterIndex cs k =
     list_all (\<lambda>j. \<not> fits symbolCodeDist K threshold firstClusterIndex cs k j)
       [0 ..< length cs]"

text \<open>The record a cluster receives: the k-mer with its distance to prototype \<open>j\<close>.\<close>

definition withDistanceTo ::
  "DistanceFunction \<Rightarrow> nat \<Rightarrow> KmerCluster list \<Rightarrow> nat \<Rightarrow> Kmer \<Rightarrow> Kmer" where
  "withDistanceTo symbolCodeDist K cs j k =
     k\<lparr>distanceFromPrototype :=
         symbolCodeDist (encoding k) (encoding (prototype (cs ! j))) K\<rparr>"

text \<open>The k-mers at positions \<open>[i, e)\<close> of an array.\<close>

definition segment :: "'a list \<Rightarrow> nat \<Rightarrow> nat \<Rightarrow> 'a list" where
  "segment ks i e = map ((!) ks) [i ..< e]"

text \<open>
  The state the banded engine keeps between passes: one high-water mark per thread,
  each inside its thread's band.
\<close>

definition bandsOK :: "nat \<Rightarrow> (nat list) ClusterState \<Rightarrow> bool" where
  "bandsOK numThreads s =
     (0 < numThreads \<and> length (firstUnallocIndex s) = numThreads \<and>
      list_all (\<lambda>threadId.
                  beginIdx (length (allKmers s)) numThreads threadId
                    \<le> firstUnallocIndex s ! threadId
                  \<and> firstUnallocIndex s ! threadId
                    \<le> endIdx (length (allKmers s)) numThreads threadId)
        [0 ..< numThreads])"

text \<open>
  The k-mers a thread scans: its band from its mark on. The threads' scans, band after
  band.
\<close>

definition bandFrom :: "nat \<Rightarrow> (nat list) ClusterState \<Rightarrow> nat \<Rightarrow> Kmer list" where
  "bandFrom numThreads s threadId =
     segment (allKmers s) (firstUnallocIndex s ! threadId)
       (endIdx (length (allKmers s)) numThreads threadId)"

definition scannedBanded :: "nat \<Rightarrow> (nat list) ClusterState \<Rightarrow> Kmer list" where
  "scannedBanded numThreads s = concat (map (bandFrom numThreads s) [0 ..< numThreads])"

text \<open>
  Auxiliary: what holds of the state \<open>S\<close> reached from \<open>s\<close> once the threads below \<open>m\<close>
  have scanned their bands.
\<close>

definition threadsDone ::
  "DistanceFunction \<Rightarrow> nat \<Rightarrow> real \<Rightarrow> nat \<Rightarrow> nat \<Rightarrow> (nat list) ClusterState \<Rightarrow> nat
    \<Rightarrow> (nat list) ClusterState \<Rightarrow> bool" where
  "threadsDone d K t fci n s m S =
     (length (allKmers S) = length (allKmers s)
      \<and> length (firstUnallocIndex S) = n
      \<and> (\<forall>p. beginIdx (length (allKmers s)) n m \<le> p \<longrightarrow> allKmers S ! p = allKmers s ! p)
      \<and> (\<forall>u. m \<le> u \<longrightarrow> firstUnallocIndex S ! u = firstUnallocIndex s ! u)
      \<and> (\<forall>u<m. firstUnallocIndex s ! u \<le> firstUnallocIndex S ! u
                \<and> firstUnallocIndex S ! u \<le> endIdx (length (allKmers s)) n u)
      \<and> clusters S = foldl (assignKmer d K t fci) (clusters s)
                        (concat (map (bandFrom n s) [0 ..< m]))
      \<and> (\<forall>u<m. \<forall>x. x \<in> set (bandFrom n s u) \<and> fitsNone d K t fci (clusters s) x
                \<longrightarrow> x \<in> set (bandFrom n S u)))"

text \<open>
  The sum of the distances of the marks from the starts of their bands, in natural
  numbers.
\<close>

definition bandSum :: "nat \<Rightarrow> nat \<Rightarrow> nat list \<Rightarrow> nat" where
  "bandSum numThreads N firstUnallocIndex' =
     foldl (\<lambda>numAllocated i.
              numAllocated + (firstUnallocIndex' ! i - beginIdx N numThreads i))
       0 [0 ..< numThreads]"

text \<open>
  The room that the marks have left below the ends of their bands, a quantity that every
  move of a mark makes smaller.
\<close>

definition bandPotential :: "nat \<Rightarrow> nat \<Rightarrow> nat list \<Rightarrow> nat" where
  "bandPotential N numThreads firstUnallocIndex' =
     sum_list (map (\<lambda>u. endIdx N numThreads u - firstUnallocIndex' ! u)
                 [0 ..< length firstUnallocIndex'])"

text \<open>
  The course of the pass loop, told without the loop. The head of an iteration is the
  first cluster index, the number of clusters to seed and the state; \<open>passesWithProgress\<close>
  gives the head reached from a head by \<open>p\<close> passes, each started with a k-mer still to
  allocate and each allocating at least one more k-mer, if there are \<open>p\<close> such passes.
  The loop leaves at a head with the result \<open>r\<close> in one of three ways: every k-mer is
  allocated and \<open>r\<close> is the state as it is (a normal return); or one more pass returns a
  state with the same count and \<open>r\<close> is that state (a normal return); or one more pass
  throws and \<open>r\<close> is its exception.
\<close>

fun passesWithProgress ::
  "nat \<Rightarrow> real \<Rightarrow> DistanceFunction \<Rightarrow> nat \<Rightarrow> (Kmer \<Rightarrow> Kmer) \<Rightarrow> nat \<Rightarrow> nat
    \<Rightarrow> nat \<times> nat \<times> nat ClusterState \<Rightarrow> (nat \<times> nat \<times> nat ClusterState) option" where
  "passesWithProgress w t d ci cp N 0 h = Some h"
| "passesWithProgress w t d ci cp N (Suc p) (fci, inc, s) =
     (if firstUnallocIndex s < N then
        (case DoIncrementalClusteringParallel w t d inc fci cp s of
           Inl e \<Rightarrow> None
         | Inr s' \<Rightarrow>
             if firstUnallocIndex s' = firstUnallocIndex s then None
             else passesWithProgress w t d ci cp N p (length (clusters s'), ci, s'))
      else None)"

definition leavesAt ::
  "nat \<Rightarrow> real \<Rightarrow> DistanceFunction \<Rightarrow> (Kmer \<Rightarrow> Kmer) \<Rightarrow> nat
    \<Rightarrow> nat \<times> nat \<times> nat ClusterState
    \<Rightarrow> (error \<times> nat ClusterState) + nat ClusterState \<Rightarrow> bool" where
  "leavesAt w t d cp N h r =
     (case h of (fci, inc, s) \<Rightarrow>
        if firstUnallocIndex s < N then
          (case DoIncrementalClusteringParallel w t d inc fci cp s of
             Inl e \<Rightarrow> r = Inl e
           | Inr s' \<Rightarrow> firstUnallocIndex s' = firstUnallocIndex s \<and> r = Inr s')
        else r = Inr s)"

fun passesWithProgressBanded ::
  "nat \<Rightarrow> real \<Rightarrow> DistanceFunction \<Rightarrow> nat \<Rightarrow> (Kmer \<Rightarrow> Kmer) \<Rightarrow> nat \<Rightarrow> nat \<Rightarrow> nat \<Rightarrow> nat
    \<Rightarrow> nat \<times> nat \<times> (nat list) ClusterState
    \<Rightarrow> (nat \<times> nat \<times> (nat list) ClusterState) option" where
  "passesWithProgressBanded w t d ci cp n m N 0 h = Some h"
| "passesWithProgressBanded w t d ci cp n m N (Suc p) (fci, inc, s) =
     (if GetUnallocated n N (firstUnallocIndex s) < N then
        (case DoIncrementalClusteringParallelBanded w t d inc fci cp n m s of
           Inl e \<Rightarrow> None
         | Inr s' \<Rightarrow>
             if GetUnallocated n N (firstUnallocIndex s')
                  = GetUnallocated n N (firstUnallocIndex s) then None
             else passesWithProgressBanded w t d ci cp n m N p (length (clusters s'), ci, s'))
      else None)"

definition leavesAtBanded ::
  "nat \<Rightarrow> real \<Rightarrow> DistanceFunction \<Rightarrow> (Kmer \<Rightarrow> Kmer) \<Rightarrow> nat \<Rightarrow> nat \<Rightarrow> nat
    \<Rightarrow> nat \<times> nat \<times> (nat list) ClusterState
    \<Rightarrow> (error \<times> (nat list) ClusterState) + (nat list) ClusterState \<Rightarrow> bool" where
  "leavesAtBanded w t d cp n m N h r =
     (case h of (fci, inc, s) \<Rightarrow>
        if GetUnallocated n N (firstUnallocIndex s) < N then
          (case DoIncrementalClusteringParallelBanded w t d inc fci cp n m s of
             Inl e \<Rightarrow> r = Inl e
           | Inr s' \<Rightarrow> GetUnallocated n N (firstUnallocIndex s')
                          = GetUnallocated n N (firstUnallocIndex s) \<and> r = Inr s')
        else r = Inr s)"

subsection \<open>Example data\<close>

text \<open>
  A toy distance on packed codes (0 between equal codes, 5 otherwise) and k-mers of one
  packed word, for the concrete runs below.
\<close>

definition exDist :: DistanceFunction where
  "exDist x y K = (if x = y then 0 else 5)"

definition exKmer :: "string \<Rightarrow> KmerWord \<Rightarrow> Kmer" where
  "exKmer w c = \<lparr>substring = w, instances = [(0, 0)], encoding = [c],
                 distanceFromPrototype = 65535\<rparr>"

text \<open>
  A distance of the similarity-derived kind: the code \<open>[7]\<close> is at distance 9 from
  itself.
\<close>

definition exSelfDist :: DistanceFunction where
  "exSelfDist x y K = (if x = [7] \<and> y = [7] then 9 else if x = y then 0 else 5)"

section \<open>KmerIndex.hpp\<close>

text \<open>
  An \<^verbatim>\<open>EncodedFastaSequence\<close> as the index uses it: its residues and the packed code of
  the k-mer at a position (\<^verbatim>\<open>GetEncodedKmer\<close>). An instance names its sequence by the
  position of the sequence in the dataset.
\<close>

record EncodedFastaSequence =
  Sequence :: string
  GetEncodedKmer :: "nat \<Rightarrow> EncodedKmer"

text \<open>\<^verbatim>\<open>FastaSequence::KmerCount\<close>: the number of complete k-mers of length \<open>K\<close>.\<close>

definition KmerCount :: "string \<Rightarrow> nat \<Rightarrow> nat" where
  "KmerCount sequence' K =
     (let length' = length sequence' in if length' \<ge> K then length' + 1 - K else 0)"

text \<open>
  \<^verbatim>\<open>Substring(str, start, length)\<close>: the window of \<open>length\<close> characters at \<open>start\<close>;
  two windows of the index are equal when their characters are.
\<close>

definition Substring :: "string \<Rightarrow> nat \<Rightarrow> nat \<Rightarrow> string" where
  "Substring str start len = take len (drop start str)"

text \<open>The constructor \<^verbatim>\<open>Kmer(const Substring &)\<close> and \<^verbatim>\<open>Kmer::Add(seq, kmerPosition)\<close>.\<close>

definition newKmer :: "string \<Rightarrow> Kmer" where
  "newKmer s = \<lparr>substring = s, instances = [], encoding = [], distanceFromPrototype = 65535\<rparr>"

definition KmerAdd :: "Kmer \<Rightarrow> nat \<Rightarrow> EncodedFastaSequence \<Rightarrow> nat \<Rightarrow> Kmer" where
  "KmerAdd kmer seqId seq kmerPosition =
     (let k1 = kmer\<lparr>distanceFromPrototype := 65535,
                     instances := instances kmer @ [(seqId, kmerPosition)]\<rparr>
      in if length (instances k1) = 1
         then k1\<lparr>encoding := GetEncodedKmer seq kmerPosition\<rparr> else k1)"

text \<open>
  One step of the constructor's inner loop on the map, kept as a list of (key, record)
  pairs in insertion order: \<^verbatim>\<open>find(s)\<close>, then either a new record with its first
  instance is inserted or the instance is added to the record found.
\<close>

fun indexAdd ::
  "(string \<times> Kmer) list \<Rightarrow> string \<Rightarrow> nat \<Rightarrow> EncodedFastaSequence \<Rightarrow> nat
    \<Rightarrow> (string \<times> Kmer) list" where
  "indexAdd [] s seqId seq kmerPos = [(s, KmerAdd (newKmer s) seqId seq kmerPos)]"
| "indexAdd ((key, kmer) # rest) s seqId seq kmerPos =
     (if key = s then (key, KmerAdd kmer seqId seq kmerPos) # rest
      else (key, kmer) # indexAdd rest s seqId seq kmerPos)"

text \<open>
  The constructor \<^verbatim>\<open>KmerIndex(dataset, length, kmerLength)\<close>. The \<^verbatim>\<open>size_t\<close> that
  \<^verbatim>\<open>KmerCount\<close> returns is stored in \<^verbatim>\<open>uint kmerCount\<close>, an unsigned integer of 32 bits,
  which keeps its low 32 bits; the loop counter \<^verbatim>\<open>kmerPos\<close> is a \<^verbatim>\<open>size_t\<close>.
\<close>

definition indexSequence ::
  "nat \<Rightarrow> (string \<times> Kmer) list \<Rightarrow> nat \<Rightarrow> EncodedFastaSequence \<Rightarrow> (string \<times> Kmer) list" where
  "indexSequence kmerLength index i seq =
     (let residues = Sequence seq;
          seqLen = length (Sequence seq)
      in if seqLen < kmerLength then index
         else
           (let kmerCount = unat (word_of_nat (KmerCount (Sequence seq) kmerLength) :: 32 word)
            in foldl (\<lambda>index kmerPos.
                        indexAdd index (Substring residues kmerPos kmerLength) i seq kmerPos)
                 index [0 ..< kmerCount]))"

definition KmerIndex :: "EncodedFastaSequence list \<Rightarrow> nat \<Rightarrow> (string \<times> Kmer) list" where
  "KmerIndex dataset kmerLength =
     foldl (\<lambda>index i. indexSequence kmerLength index i (dataset ! i)) []
       [0 ..< length dataset]"

text \<open>\<^verbatim>\<open>GetKmers\<close>: the records of the map.\<close>

definition GetKmers :: "(string \<times> Kmer) list \<Rightarrow> Kmer list" where
  "GetKmers index = map snd index"

text \<open>
  The naive count of the specification: the start positions at which a window of length
  \<open>k\<close> fits in the sequence.
\<close>

definition windowStarts :: "string \<Rightarrow> nat \<Rightarrow> nat list" where
  "windowStarts s k = filter (\<lambda>p. p + k \<le> length s) [0 ..< length s + 1]"

definition totalInstances :: "(string \<times> Kmer) list \<Rightarrow> nat" where
  "totalInstances index = sum_list (map (\<lambda>kmer. length (instances kmer)) (GetKmers index))"

section \<open>KMedoids.hpp: \<^verbatim>\<open>GetMedoid\<close>\<close>

text \<open>
  The arrays \<^verbatim>\<open>allocatedDist\<close> (\<^verbatim>\<open>unsigned long\<close>) and \<^verbatim>\<open>allocatedCount\<close> are indexed by
  the position of a k-mer in \<^verbatim>\<open>kmers\<close>; a sum of at most \<open>2^32\<close> distances of 16 bits
  stays below \<open>2^64\<close>, so the cells are natural numbers. The two outputs \<^verbatim>\<open>protoPtr\<close>
  and \<^verbatim>\<open>protoCode\<close> are options, \<open>None\<close> for \<^verbatim>\<open>nullptr\<close>.
\<close>

record MedoidResult =
  allocatedDist :: "nat list"
  allocatedCount :: "nat list"
  protoPtr :: "Kmer option"
  protoCode :: "EncodedKmer option"

text \<open>The inner loop over \<open>j\<close>; the test \<^verbatim>\<open>if (j == i) continue\<close> is commented out in the source.\<close>

definition medoidInner ::
  "DistanceFunction \<Rightarrow> EncodedKmer list \<Rightarrow> nat \<Rightarrow> nat list \<Rightarrow> nat
    \<Rightarrow> nat list \<times> nat list \<Rightarrow> nat list \<times> nat list" where
  "medoidInner distance kmerCodes kmerLength clusterAssignment candidatePos =
     (\<lambda>arrays. foldl (\<lambda>(ad, ac) j.
        (let comparePos = clusterAssignment ! j
         in (ad[candidatePos := ad ! candidatePos
                  + unat (distance (kmerCodes ! candidatePos) (kmerCodes ! comparePos) kmerLength)],
             ac[candidatePos := ac ! candidatePos + 1])))
        arrays [0 ..< length clusterAssignment])"

text \<open>The first loop over \<open>i\<close>.\<close>

definition medoidTotals ::
  "DistanceFunction \<Rightarrow> EncodedKmer list \<Rightarrow> nat \<Rightarrow> nat list
    \<Rightarrow> nat list \<times> nat list \<Rightarrow> nat list \<times> nat list" where
  "medoidTotals distance kmerCodes kmerLength clusterAssignment =
     (\<lambda>arrays. foldl (\<lambda>(ad, ac) i.
        (let candidatePos = clusterAssignment ! i
         in medoidInner distance kmerCodes kmerLength clusterAssignment candidatePos
              (ad[candidatePos := 0], ac[candidatePos := 0])))
        arrays [0 ..< length clusterAssignment])"

text \<open>The second loop: the first position with the least total.\<close>

definition medoidSelect :: "nat list \<Rightarrow> nat list \<Rightarrow> nat" where
  "medoidSelect ad clusterAssignment =
     foldl (\<lambda>minimalDistPos i.
        (let candidatePos = clusterAssignment ! i
         in if ad ! candidatePos < ad ! minimalDistPos then candidatePos else minimalDistPos))
       (clusterAssignment ! 0) [0 ..< length clusterAssignment]"

definition GetMedoid ::
  "nat list \<Rightarrow> nat list \<Rightarrow> nat list \<Rightarrow> DistanceFunction \<Rightarrow> EncodedKmer list \<Rightarrow> nat
    \<Rightarrow> Kmer list \<Rightarrow> MedoidResult" where
  "GetMedoid clusterAssignment allocatedDist' allocatedCount' distance kmerCodes kmerLength
      kmers' =
     (let N_k = length clusterAssignment
      in if N_k > 0 then
           (let (ad, ac) = medoidTotals distance kmerCodes kmerLength clusterAssignment
                             (allocatedDist', allocatedCount');
                minimalDistPos = medoidSelect ad clusterAssignment
            in \<lparr>allocatedDist = ad, allocatedCount = ac,
                protoPtr = Some (kmers' ! minimalDistPos),
                protoCode = Some (kmerCodes ! minimalDistPos)\<rparr>)
         else \<lparr>allocatedDist = allocatedDist', allocatedCount = allocatedCount',
               protoPtr = None, protoCode = None\<rparr>)"

text \<open>
  The two objectives: the total distance from the k-mer at position \<open>c\<close> to all members of
  the cluster, itself included, and the total distance from the member in place \<open>i\<close> of
  the assignment to the members in the other places.
\<close>

definition totalDistance ::
  "DistanceFunction \<Rightarrow> EncodedKmer list \<Rightarrow> nat \<Rightarrow> nat list \<Rightarrow> nat \<Rightarrow> nat" where
  "totalDistance distance kmerCodes kmerLength clusterAssignment c =
     sum_list (map (\<lambda>c'. unat (distance (kmerCodes ! c) (kmerCodes ! c') kmerLength))
       clusterAssignment)"

definition totalDistanceToOthers ::
  "DistanceFunction \<Rightarrow> EncodedKmer list \<Rightarrow> nat \<Rightarrow> nat list \<Rightarrow> nat \<Rightarrow> nat" where
  "totalDistanceToOthers distance kmerCodes kmerLength clusterAssignment i =
     sum_list (map (\<lambda>j. unat (distance (kmerCodes ! (clusterAssignment ! i))
                                 (kmerCodes ! (clusterAssignment ! j)) kmerLength))
       (filter (\<lambda>j. j \<noteq> i) [0 ..< length clusterAssignment]))"

text \<open>
  A distance in which the code \<open>[1]\<close> is far from itself and near the others (a
  difference derived from a similarity matrix has such self-distances).
\<close>

definition exMedoidDist :: DistanceFunction where
  "exMedoidDist x y K =
     (if x = y then (if x = [1] then 10 else 0)
      else if x = [1] \<or> y = [1] then 1 else 3)"

section \<open>Alphabet.hpp\<close>

text \<open>
  An alphabet is its symbol string and the table \<^verbatim>\<open>inverse\<close> from a character to the
  position of the symbol (\<^verbatim>\<open>unsigned char inverse[128]\<close>, filled with 0 and then set for the
  lower-case and the upper-case form of every symbol). \<^verbatim>\<open>tolower\<close> and \<^verbatim>\<open>toupper\<close> are those
  of the C locale.
\<close>

record Alphabet =
  symbols :: string
  inverse' :: "char \<Rightarrow> nat"

definition tolower :: "char \<Rightarrow> char" where
  "tolower c = (let n = (of_char c :: nat) in if 65 \<le> n \<and> n \<le> 90 then char_of (n + 32) else c)"

definition toupper :: "char \<Rightarrow> char" where
  "toupper c = (let n = (of_char c :: nat) in if 97 \<le> n \<and> n \<le> 122 then char_of (n - 32) else c)"

definition newAlphabet :: "string \<Rightarrow> Alphabet" where
  "newAlphabet symbols' =
     \<lparr>symbols = symbols',
      inverse' = foldl (\<lambda>inv i. (inv(tolower (symbols' ! i) := i mod 256))
                                      (toupper (symbols' ! i) := i mod 256))
                   (\<lambda>c. 0) [0 ..< length symbols']\<rparr>"

definition Size :: "Alphabet \<Rightarrow> nat" where
  "Size alphabet = length (symbols alphabet)"

definition WordsPerKmer :: "nat \<Rightarrow> nat \<Rightarrow> nat" where
  "WordsPerKmer kmerLength charsPerWord = (kmerLength + charsPerWord - 1) div charsPerWord"

text \<open>
  \<^verbatim>\<open>Encode(s, kmerLength, charsPerWord, code)\<close> writes the packed code into the buffer
  \<open>code\<close>; the product and sum are truncated to the 16 bits of a \<^verbatim>\<open>KmerWord\<close> when they
  are stored.
\<close>

definition encodeStep ::
  "Alphabet \<Rightarrow> string \<Rightarrow> nat \<Rightarrow> nat \<Rightarrow> EncodedKmer \<times> nat \<Rightarrow> nat \<Rightarrow> EncodedKmer \<times> nat" where
  "encodeStep alphabet s charsPerWord words = (\<lambda>(code, wordIndex) i.
     (let size' = Size alphabet;
          j = inverse' alphabet (s ! i);
          code = code[wordIndex := code ! wordIndex * word_of_nat size' + word_of_nat j]
      in if i > 0 \<and> i mod charsPerWord = charsPerWord - 1 then
           (let wordIndex = wordIndex + 1
            in (if wordIndex < words then code[wordIndex := 0] else code, wordIndex))
         else (code, wordIndex)))"

definition Encode :: "Alphabet \<Rightarrow> string \<Rightarrow> nat \<Rightarrow> nat \<Rightarrow> EncodedKmer \<Rightarrow> EncodedKmer" where
  "Encode alphabet s kmerLength charsPerWord code =
     (let words = WordsPerKmer kmerLength charsPerWord
      in fst (foldl (encodeStep alphabet s charsPerWord words) (code[0 := 0], 0)
                [0 ..< kmerLength]))"

text \<open>
  \<^verbatim>\<open>Decode(code, k, charsPerWord, charBuffer)\<close>: the list \<open>t\<close> of strings, the last of
  which is the string \<open>s\<close> being built by insertion at the front; the characters written
  to the buffer are the concatenation of \<open>t\<close>. The word \<open>n\<close> only decreases, so it is
  kept as a natural number.
\<close>

definition decodeStep ::
  "Alphabet \<Rightarrow> EncodedKmer \<Rightarrow> nat \<Rightarrow> nat \<Rightarrow> nat \<times> nat \<times> string list \<Rightarrow> nat
    \<Rightarrow> nat \<times> nat \<times> string list" where
  "decodeStep alphabet code charsPerWord words = (\<lambda>(n, wordIndex, t) i.
     (let size' = Size alphabet;
          j = n mod size';
          n = (n - j) div size';
          t = butlast t @ [symbols alphabet ! j # last t]
      in if i > 0 \<and> i mod charsPerWord = charsPerWord - 1 then
           (let wordIndex = wordIndex + 1
            in if wordIndex < words then (unat (code ! wordIndex), wordIndex, t @ [[]])
               else (n, wordIndex, t))
         else (n, wordIndex, t)))"

definition Decode :: "Alphabet \<Rightarrow> EncodedKmer \<Rightarrow> nat \<Rightarrow> nat \<Rightarrow> string" where
  "Decode alphabet code k charsPerWord =
     (let words = (k + charsPerWord - 1) div charsPerWord
      in case foldl (decodeStep alphabet code charsPerWord words) (unat (code ! 0), 0, [[]])
                [0 ..< k] of
           (n, wordIndex, t) \<Rightarrow> concat t)"

section \<open>KmerDistanceCache.hpp\<close>

text \<open>
  A raw distance function compares two character strings of a given length. A table cell
  is an \<^verbatim>\<open>int8_t\<close>: storing a \<^verbatim>\<open>Distance\<close> keeps its low 8 bits, reading a cell into a
  \<^verbatim>\<open>Distance\<close> extends its sign.
\<close>

type_synonym RawKmerDistanceFunction = "string \<Rightarrow> string \<Rightarrow> nat \<Rightarrow> Distance"

type_synonym CacheType = "8 word"

text \<open>
  \<^verbatim>\<open>PrecomputeDistances(charsPerWord, kmerDistanceTable, vocabSize_)\<close>. The vocabulary size
  is a \<^verbatim>\<open>uint\<close> of 32 bits; the assertion raises when it exceeds the largest \<^verbatim>\<open>KmerWord\<close>. The table is
  allocated without initial values (here: zeros) and every cell is written by the loops.
\<close>

definition precomputeRow ::
  "RawKmerDistanceFunction \<Rightarrow> nat \<Rightarrow> string list \<Rightarrow> nat \<Rightarrow> CacheType list \<Rightarrow> nat
    \<Rightarrow> CacheType list" where
  "precomputeRow dist' charsPerWord vocab vocabSize kmerDistanceTable i =
     (let x = vocab ! i
      in foldl (\<lambda>table j.
           (let y = vocab ! j;
                t = dist' x y charsPerWord
            in (table[i * vocabSize + j := ucast t])[j * vocabSize + i := ucast t]))
         kmerDistanceTable [0 ..< i + 1])"

definition PrecomputeDistances ::
  "Alphabet \<Rightarrow> RawKmerDistanceFunction \<Rightarrow> nat \<Rightarrow> error + (CacheType list \<times> nat)" where
  "PrecomputeDistances alphabet dist' charsPerWord =
     (let len = (word_of_nat (Size alphabet) :: 32 word);
          vocabSize32 = foldl (\<lambda>vocabSize i. vocabSize * len) len [1 ..< charsPerWord]
      in if \<not> vocabSize32 \<le> 65535
         then Inl (Exception ''Condition is not true as expected.'')
         else
           (let vocabSize = unat vocabSize32;
                vocab = map (\<lambda>i. Decode alphabet [word_of_nat i] charsPerWord charsPerWord)
                          [0 ..< vocabSize];
                kmerDistanceTable =
                  foldl (precomputeRow dist' charsPerWord vocab vocabSize)
                    (replicate (vocabSize * vocabSize) 0) [0 ..< vocabSize]
            in Inr (kmerDistanceTable, vocabSize)))"

record KmerDistanceCache3 =
  kmerDistances1 :: "CacheType list"
  vocabSize1 :: nat
  kmerDistances2 :: "CacheType list"
  vocabSize2 :: nat
  kmerDistances3 :: "CacheType list"
  vocabSize3 :: nat

text \<open>The constructor \<^verbatim>\<open>KmerDistanceCache3(alphabet, dist)\<close>.\<close>

definition newKmerDistanceCache3 ::
  "Alphabet \<Rightarrow> RawKmerDistanceFunction \<Rightarrow> error + KmerDistanceCache3" where
  "newKmerDistanceCache3 alphabet dist' =
     (case PrecomputeDistances alphabet dist' 1 of
        Inl e \<Rightarrow> Inl e
      | Inr (t1, v1) \<Rightarrow>
          (case PrecomputeDistances alphabet dist' 2 of
             Inl e \<Rightarrow> Inl e
           | Inr (t2, v2) \<Rightarrow>
               (case PrecomputeDistances alphabet dist' 3 of
                  Inl e \<Rightarrow> Inl e
                | Inr (t3, v3) \<Rightarrow>
                    Inr \<lparr>kmerDistances1 = t1, vocabSize1 = v1,
                         kmerDistances2 = t2, vocabSize2 = v2,
                         kmerDistances3 = t3, vocabSize3 = v3\<rparr>)))"

text \<open>
  The three look-ups. With a vocabulary of at most 65535 words the index
  \<^verbatim>\<open>sKmerCode[i] * vocabSize + tKmerCode[i]\<close> stays below \<open>2^32\<close>.
\<close>

definition lookup3 :: "KmerDistanceCache3 \<Rightarrow> EncodedKmer \<Rightarrow> EncodedKmer \<Rightarrow> nat \<Rightarrow> CacheType" where
  "lookup3 cache sKmerCode tKmerCode i =
     kmerDistances3 cache ! (unat (sKmerCode ! i) * vocabSize3 cache + unat (tKmerCode ! i))"

definition lookup2 :: "KmerDistanceCache3 \<Rightarrow> EncodedKmer \<Rightarrow> EncodedKmer \<Rightarrow> nat \<Rightarrow> CacheType" where
  "lookup2 cache sKmerCode tKmerCode i =
     kmerDistances2 cache ! (unat (sKmerCode ! i) * vocabSize2 cache + unat (tKmerCode ! i))"

definition lookup1 :: "KmerDistanceCache3 \<Rightarrow> EncodedKmer \<Rightarrow> EncodedKmer \<Rightarrow> nat \<Rightarrow> CacheType" where
  "lookup1 cache sKmerCode tKmerCode i =
     kmerDistances1 cache ! (unat (sKmerCode ! i) * vocabSize1 cache + unat (tKmerCode ! i))"

text \<open>\<^verbatim>\<open>KmerDistanceCache3::GetDistance\<close>; the sum is kept in a \<^verbatim>\<open>Distance\<close>.\<close>

definition GetDistance ::
  "KmerDistanceCache3 \<Rightarrow> EncodedKmer \<Rightarrow> EncodedKmer \<Rightarrow> nat \<Rightarrow> Distance" where
  "GetDistance cache sKmerCode tKmerCode kmerLength =
     (let numThrees = kmerLength div 3;
          rem = kmerLength mod 3;
          dist' = foldl (\<lambda>dist' i. dist' + scast (lookup3 cache sKmerCode tKmerCode i)) 0
                    [0 ..< numThrees];
          i = numThrees
      in if rem > 0 then
           dist' + (if rem = 1 then scast (lookup1 cache sKmerCode tKmerCode i)
                    else scast (lookup2 cache sKmerCode tKmerCode i))
         else dist')"

text \<open>
  \<^verbatim>\<open>KmerDistanceCache3::IsWithin\<close>. The loop over the threes returns \<open>None\<close> when it leaves
  the function with \<^verbatim>\<open>return false\<close>; the function returns its boolean and the content of
  the reference \<open>result\<close>.
\<close>

fun withinThrees ::
  "KmerDistanceCache3 \<Rightarrow> EncodedKmer \<Rightarrow> EncodedKmer \<Rightarrow> Distance \<Rightarrow> Distance \<Rightarrow> nat list
    \<Rightarrow> Distance option" where
  "withinThrees cache sKmerCode tKmerCode threshold dist' [] = Some dist'"
| "withinThrees cache sKmerCode tKmerCode threshold dist' (i # rest) =
     (let dist' = dist' + scast (lookup3 cache sKmerCode tKmerCode i)
      in if dist' > threshold then None
         else withinThrees cache sKmerCode tKmerCode threshold dist' rest)"

definition IsWithin ::
  "KmerDistanceCache3 \<Rightarrow> EncodedKmer \<Rightarrow> EncodedKmer \<Rightarrow> nat \<Rightarrow> Distance \<Rightarrow> Distance
    \<Rightarrow> bool \<times> Distance" where
  "IsWithin cache sKmerCode tKmerCode kmerLength threshold result =
     (let numThrees = kmerLength div 3;
          rem = kmerLength mod 3
      in case withinThrees cache sKmerCode tKmerCode threshold 0 [0 ..< numThrees] of
           None \<Rightarrow> (False, result)
         | Some dist' \<Rightarrow>
             (let i = numThrees
              in if rem > 0 then
                   (let dist' = dist' + (if rem = 1 then scast (lookup1 cache sKmerCode tKmerCode i)
                                         else scast (lookup2 cache sKmerCode tKmerCode i))
                    in if dist' > threshold then (False, result) else (True, dist'))
                 else (True, dist')))"

text \<open>
  The cells that \<^verbatim>\<open>GetDistance\<close> and \<^verbatim>\<open>IsWithin\<close> read for a pair of codes, in the order
  of reading.
\<close>

definition chunkDistances ::
  "KmerDistanceCache3 \<Rightarrow> EncodedKmer \<Rightarrow> EncodedKmer \<Rightarrow> nat \<Rightarrow> CacheType list" where
  "chunkDistances cache sKmerCode tKmerCode kmerLength =
     map (lookup3 cache sKmerCode tKmerCode) [0 ..< kmerLength div 3]
     @ (if kmerLength mod 3 = 0 then []
        else if kmerLength mod 3 = 1 then [lookup1 cache sKmerCode tKmerCode (kmerLength div 3)]
        else [lookup2 cache sKmerCode tKmerCode (kmerLength div 3)])"

text \<open>
  A cache over a one-letter alphabet whose only word of three letters is at distance 127
  from itself.
\<close>

definition exCache :: KmerDistanceCache3 where
  "exCache = \<lparr>kmerDistances1 = [1], vocabSize1 = 1,
              kmerDistances2 = [1], vocabSize2 = 1,
              kmerDistances3 = [127], vocabSize3 = 1\<rparr>"

text \<open>\<^verbatim>\<open>UngappedEditDistanceFunction\<close>: the number of positions at which two strings differ.\<close>

definition UngappedEditDistance :: RawKmerDistanceFunction where
  "UngappedEditDistance x y length' =
     word_of_nat (foldl (\<lambda>diffs i. if x ! i \<noteq> y ! i then diffs + 1 else diffs) 0
                    [0 ..< length'])"

text \<open>
  Vocabulary for the statements about the cache. The symbols of an alphabet are distinct
  when case is ignored; a string is over the alphabet when its characters are symbols;
  \<open>packWord\<close> is the number that a chunk denotes in base \<open>Size\<close>, first character most
  significant; the chunk \<open>i\<close> of a string is its characters \<open>3 i\<close>, \<open>3 i + 1\<close>, \<open>3 i + 2\<close>,
  as far as they exist; the naive distance is the sum, in a \<^verbatim>\<open>Distance\<close>, of the raw
  distances of the successive chunks.
\<close>

definition caseDistinct :: "Alphabet \<Rightarrow> bool" where
  "caseDistinct alphabet = distinct (map tolower (symbols alphabet))"

definition overAlphabet :: "Alphabet \<Rightarrow> string \<Rightarrow> bool" where
  "overAlphabet alphabet s = list_all (\<lambda>c. c \<in> set (symbols alphabet)) s"

definition packWord :: "Alphabet \<Rightarrow> string \<Rightarrow> nat" where
  "packWord alphabet cs = foldl (\<lambda>n c. n * Size alphabet + inverse' alphabet c) 0 cs"

definition chunk :: "string \<Rightarrow> nat \<Rightarrow> string" where
  "chunk s i = take 3 (drop (3 * i) s)"

definition naiveDistance :: "RawKmerDistanceFunction \<Rightarrow> string \<Rightarrow> string \<Rightarrow> nat \<Rightarrow> Distance" where
  "naiveDistance dist' x y k =
     sum_list (map (\<lambda>i. dist' (chunk x i) (chunk y i) (length (chunk x i)))
                 [0 ..< WordsPerKmer k 3])"

definition chunksFit :: "RawKmerDistanceFunction \<Rightarrow> string \<Rightarrow> string \<Rightarrow> nat \<Rightarrow> bool" where
  "chunksFit dist' x y k =
     list_all (\<lambda>i. unat (dist' (chunk x i) (chunk y i) (length (chunk x i))) \<le> 127)
       [0 ..< WordsPerKmer k 3]"

text \<open>A raw distance that is not symmetric.\<close>

definition exRawAsym :: RawKmerDistanceFunction where
  "exRawAsym x y k =
     (if x = ''a'' \<and> y = ''c'' then 1 else if x = ''c'' \<and> y = ''a'' then 2 else 0)"

section \<open>Properties of the clustering engine\<close>

subsection \<open>The entry check\<close>

text \<open>
  Claim C10. Both overloads of \<^verbatim>\<open>DoIncrementalClusteringParallel\<close> throw at entry when
  the cluster list is empty and \<^verbatim>\<open>requestedClusterCount\<close> is zero, and the state the
  caller is left with is the state it passed in (clusters, k-mer array and high-water
  marks unchanged). When the cluster list is not empty or the requested count is positive,
  the call returns normally. The banded overload is taken with any number of threads
  asked for and any team.
\<close>

theorem entry_check_raises_before_any_write:
  "(length (clusters s) = 0 \<and> r = 0 \<longrightarrow>
      DoIncrementalClusteringParallel K threshold symbolCodeDist r
        firstClusterIndex createPrototype s
      = Inl (Exception ''clusters.size() == 0 && requestedClusterCount == 0'', s))
   \<and> (length (clusters b) = 0 \<and> r = 0 \<longrightarrow>
      DoIncrementalClusteringParallelBanded K threshold symbolCodeDist r
        firstClusterIndex createPrototype numThreads team b
      = Inl (Exception ''clusters.size() == 0 && requestedClusterCount == 0'', b))
   \<and> (length (clusters s2) \<noteq> 0 \<or> 0 < r2 \<longrightarrow>
      (\<exists>s'. DoIncrementalClusteringParallel K threshold symbolCodeDist r2
        firstClusterIndex createPrototype s2 = Inr s'))
   \<and> (length (clusters b2) \<noteq> 0 \<or> 0 < r2 \<longrightarrow>
      (\<exists>b'. DoIncrementalClusteringParallelBanded K threshold symbolCodeDist
        r2 firstClusterIndex createPrototype numThreads team b2 = Inr b'))"
  by (auto simp: DoIncrementalClusteringParallel_def DoIncrementalClusteringParallelBanded_def
      Let_def)

theorem entry_check_witness:
  "DoIncrementalClusteringParallel 3 1 (\<lambda>x y k. 0) 0 0 (\<lambda>k. k)
      \<lparr>clusters = [], allKmers = [], firstUnallocIndex = 0\<rparr>
     = Inl (Exception ''clusters.size() == 0 && requestedClusterCount == 0'',
            \<lparr>clusters = [], allKmers = [], firstUnallocIndex = 0\<rparr>)
   \<and> DoIncrementalClusteringParallelBanded 3 1 (\<lambda>x y k. 0) 0 0 (\<lambda>k. k) 1 1
      \<lparr>clusters = [], allKmers = [], firstUnallocIndex = [0]\<rparr>
     = Inl (Exception ''clusters.size() == 0 && requestedClusterCount == 0'',
            \<lparr>clusters = [], allKmers = [], firstUnallocIndex = [0]\<rparr>)
   \<and> (\<exists>s'. DoIncrementalClusteringParallel 3 1 (\<lambda>x y k. 0) 1 0 (\<lambda>k. k)
      \<lparr>clusters = [], allKmers = [], firstUnallocIndex = 0\<rparr> = Inr s')
   \<and> (\<exists>b'. DoIncrementalClusteringParallelBanded 3 1 (\<lambda>x y k. 0) 1 0 (\<lambda>k. k) 1 1
      \<lparr>clusters = [], allKmers = [], firstUnallocIndex = [0]\<rparr> = Inr b')"
  using entry_check_raises_before_any_write [of
      "\<lparr>clusters = [], allKmers = [], firstUnallocIndex = 0\<rparr>" 0 3 1 "\<lambda>x y k. 0" 0 "\<lambda>k. k"
      "\<lparr>clusters = [], allKmers = [], firstUnallocIndex = [0]\<rparr>" 1 1
      "\<lparr>clusters = [], allKmers = [], firstUnallocIndex = 0\<rparr>" 1
      "\<lparr>clusters = [], allKmers = [], firstUnallocIndex = [0]\<rparr>"]
  by simp

subsection \<open>Auxiliary facts\<close>

lemma swap_length [simp]: "length (swap i j xs) = length xs"
  by (simp add: swap_def)

lemma findAttractor_Some:
  "findAttractor d K t cs e j0 = Some (j, ad) \<Longrightarrow>
     j0 \<le> j \<and> j < length cs \<and> ad = d e (encoding (prototype (cs ! j))) K
     \<and> real (unat ad) \<le> t
     \<and> (\<forall>j'. j0 \<le> j' \<and> j' < j \<longrightarrow> \<not> real (unat (d e (encoding (prototype (cs ! j'))) K)) \<le> t)"
proof (induction d K t cs e j0 rule: findAttractor.induct)
  case (1 d K t cs e j0)
  show ?case
  proof (cases "j0 < length cs")
    case False
    with "1.prems" show ?thesis by (simp add: findAttractor.simps[of d K t cs e j0])
  next
    case True
    show ?thesis
    proof (cases "real (unat (d e (encoding (prototype (cs ! j0))) K)) \<le> t")
      case within: True
      with True "1.prems" show ?thesis
        by (auto simp: findAttractor.simps[of d K t cs e j0] Let_def)
    next
      case far: False
      with True "1.prems" have rec: "findAttractor d K t cs e (j0 + 1) = Some (j, ad)"
        by (simp add: findAttractor.simps[of d K t cs e j0] Let_def)
      note IH = "1.IH"[OF True refl refl far rec]
      have "\<not> real (unat (d e (encoding (prototype (cs ! j'))) K)) \<le> t"
        if a: "j0 \<le> j' \<and> j' < j" for j'
      proof (cases "j' = j0")
        case True
        with far show ?thesis by simp
      next
        case False
        with a have "j0 + 1 \<le> j'" by simp
        with IH a show ?thesis by blast
      qed
      with IH show ?thesis by auto
    qed
  qed
qed

lemma findAttractor_None:
  "findAttractor d K t cs e j0 = None \<Longrightarrow> j0 \<le> j' \<Longrightarrow> j' < length cs \<Longrightarrow>
     \<not> real (unat (d e (encoding (prototype (cs ! j'))) K)) \<le> t"
proof (induction d K t cs e j0 rule: findAttractor.induct)
  case (1 d K t cs e j0)
  from "1.prems" have lt: "j0 < length cs" by simp
  show ?case
  proof (cases "real (unat (d e (encoding (prototype (cs ! j0))) K)) \<le> t")
    case True
    with lt "1.prems"(1) show ?thesis
      by (simp add: findAttractor.simps[of d K t cs e j0] Let_def)
  next
    case far: False
    with lt "1.prems"(1) have rec: "findAttractor d K t cs e (j0 + 1) = None"
      by (simp add: findAttractor.simps[of d K t cs e j0] Let_def)
    show ?thesis
    proof (cases "j' = j0")
      case True
      with far show ?thesis by simp
    next
      case False
      with "1.prems" have "j0 + 1 \<le> j'" by simp
      from "1.IH"[OF lt refl refl far rec this "1.prems"(3)] show ?thesis .
    qed
  qed
qed

lemma findAttractor_protos:
  "map prototype cs = map prototype cs' \<Longrightarrow>
     findAttractor d K t cs e j = findAttractor d K t cs' e j"
proof (induction d K t cs e j rule: findAttractor.induct)
  case (1 d K t cs e j)
  from "1.prems" have len: "length cs = length cs'" by (metis length_map)
  show ?case
  proof (cases "j < length cs")
    case False
    with len show ?thesis
      by (simp add: findAttractor.simps[of d K t cs e j] findAttractor.simps[of d K t cs' e j])
  next
    case True
    have p: "prototype (cs ! j) = prototype (cs' ! j)"
      using "1.prems" True len by (metis nth_map)
    show ?thesis
    proof (cases "real (unat (d e (encoding (prototype (cs ! j))) K)) \<le> t")
      case within: True
      with True len p show ?thesis
        by (simp add: findAttractor.simps[of d K t cs e j] findAttractor.simps[of d K t cs' e j] Let_def)
    next
      case far: False
      from "1.IH"[OF True refl refl far "1.prems"] True len p far show ?thesis
        by (simp add: findAttractor.simps[of d K t cs e j] findAttractor.simps[of d K t cs' e j] Let_def)
    qed
  qed
qed

lemma membersWithin_Add:
  assumes inv: "membersWithin d K t cs"
    and j: "j < length cs"
    and near: "real (unat (d (encoding k) (encoding (prototype (cs ! j))) K)) \<le> t"
  shows "membersWithin d K t (cs[j := AddParallel (cs ! j) k])"
proof -
  have "\<And>c. c \<in> set (cs[j := AddParallel (cs ! j) k]) \<Longrightarrow>
          list_all (\<lambda>m. real (unat (d (encoding m) (encoding (prototype c)) K)) \<le> t) (kmers c)"
  proof -
    fix c assume "c \<in> set (cs[j := AddParallel (cs ! j) k])"
    then have "c = AddParallel (cs ! j) k \<or> c \<in> set cs"
      using set_update_subset_insert by fastforce
    then show "list_all (\<lambda>m. real (unat (d (encoding m) (encoding (prototype c)) K)) \<le> t) (kmers c)"
    proof
      assume c: "c = AddParallel (cs ! j) k"
      have "cs ! j \<in> set cs" using j by simp
      with inv have "list_all (\<lambda>m. real (unat (d (encoding m) (encoding (prototype (cs ! j))) K)) \<le> t) (kmers (cs ! j))"
        by (simp add: membersWithin_def list_all_iff)
      with near c show ?thesis by (simp add: AddParallel_def)
    next
      assume "c \<in> set cs"
      with inv show ?thesis by (simp add: membersWithin_def list_all_iff)
    qed
  qed
  then show ?thesis by (simp add: membersWithin_def list_all_iff)
qed

lemma scanKmer_membersWithin:
  "membersWithin d K t (clusters s) \<Longrightarrow> membersWithin d K t (clusters (scanKmer d K t f i s))"
proof (cases "findAttractor d K t (clusters s) (encoding (allKmers s ! i)) f")
  case None
  assume "membersWithin d K t (clusters s)"
  with None show ?thesis by (simp add: scanKmer_def Let_def)
next
  case (Some a)
  assume inv: "membersWithin d K t (clusters s)"
  obtain j ad where a: "a = (j, ad)" by (cases a)
  from findAttractor_Some[OF Some[unfolded a]]
  have "j < length (clusters s)"
    and "real (unat (d (encoding (allKmers s ! i)) (encoding (prototype (clusters s ! j))) K)) \<le> t"
    by auto
  from membersWithin_Add[OF inv this(1), of "(allKmers s ! i)\<lparr>distanceFromPrototype := ad\<rparr>"] this(2)
  show ?thesis using Some a by (simp add: scanKmer_def Let_def)
qed

lemma scanLoop_membersWithin:
  "membersWithin d K t (clusters s) \<Longrightarrow> membersWithin d K t (clusters (scanLoop d K t f i s))"
proof (induction d K t f i s rule: scanLoop.induct)
  case (1 d K t f i s)
  show ?case
  proof (cases "i < length (allKmers s)")
    case True
    from "1.IH"[OF True scanKmer_membersWithin[OF "1.prems"]] True
    show ?thesis by (subst scanLoop.simps) simp
  next
    case False
    with "1.prems" show ?thesis by (subst scanLoop.simps) simp
  qed
qed

lemma membersWithin_append_new:
  "membersWithin d K t cs \<Longrightarrow>
     membersWithin d K t (cs @ map (\<lambda>i. newKmerCluster (p i) 0) is)"
  by (auto simp: membersWithin_def list_all_iff newKmerCluster_def)

lemma seedClusters_membersWithin:
  "membersWithin d K t (clusters s) \<Longrightarrow> membersWithin d K t (clusters (seedClusters c r s))"
  by (simp add: seedClusters_def Let_def membersWithin_append_new)

lemma DICP_membersWithin:
  "membersWithin d K t (clusters s) \<Longrightarrow>
     membersWithin d K t (clusters (finalState (DoIncrementalClusteringParallel K t d r f c s)))"
  by (auto simp: DoIncrementalClusteringParallel_def scanPhase_def finalState_def Let_def
      scanLoop_membersWithin seedClusters_membersWithin)

lemma scanKmer_first_mono: "firstUnallocIndex s \<le> firstUnallocIndex (scanKmer d K t f i s)"
  by (simp add: scanKmer_def Let_def split: option.splits)

lemma scanKmer_length [simp]: "length (allKmers (scanKmer d K t f i s)) = length (allKmers s)"
  by (simp add: scanKmer_def Let_def split: option.splits)

lemma scanLoop_first_mono: "firstUnallocIndex s \<le> firstUnallocIndex (scanLoop d K t f i s)"
proof (induction d K t f i s rule: scanLoop.induct)
  case (1 d K t f i s)
  show ?case
  proof (cases "i < length (allKmers s)")
    case True
    have "firstUnallocIndex s \<le> firstUnallocIndex (scanKmer d K t f i s)"
      by (rule scanKmer_first_mono)
    also have "\<dots> \<le> firstUnallocIndex (scanLoop d K t f (i + 1) (scanKmer d K t f i s))"
      using 1 True by simp
    finally show ?thesis using True by (subst scanLoop.simps) simp
  next
    case False
    then show ?thesis by (subst scanLoop.simps) simp
  qed
qed

lemma seedClusters_first [simp]: "firstUnallocIndex (seedClusters c r s) = firstUnallocIndex s"
  by (simp add: seedClusters_def Let_def)

lemma DICP_first_mono:
  "DoIncrementalClusteringParallel K t d r f c s = Inr s' \<Longrightarrow> firstUnallocIndex s \<le> firstUnallocIndex s'"
  using scanLoop_first_mono[of "seedClusters c r s" d K t f "firstUnallocIndex s"] scanLoop_first_mono[of s d K t f "firstUnallocIndex s"]
  by (auto simp: DoIncrementalClusteringParallel_def scanPhase_def Let_def split: if_splits)

termination passLoop
  apply (relation "measure (\<lambda>(w, t, d, ci, cp, N, fci, inc, s). N - firstUnallocIndex s)")
   apply simp
  apply (auto dest!: DICP_first_mono)
  done

lemma scanKmerBanded_membersWithin:
  "membersWithin d K t (clusters s) \<Longrightarrow>
     membersWithin d K t (clusters (scanKmerBanded d K t f th i s))"
proof (cases "findAttractor d K t (clusters s) (encoding (allKmers s ! i)) f")
  case None
  assume "membersWithin d K t (clusters s)"
  with None show ?thesis by (simp add: scanKmerBanded_def Let_def)
next
  case (Some a)
  assume inv: "membersWithin d K t (clusters s)"
  obtain j ad where a: "a = (j, ad)" by (cases a)
  from findAttractor_Some[OF Some[unfolded a]]
  have "j < length (clusters s)"
    and "real (unat (d (encoding (allKmers s ! i)) (encoding (prototype (clusters s ! j))) K)) \<le> t"
    by auto
  from membersWithin_Add[OF inv this(1), of "(allKmers s ! i)\<lparr>distanceFromPrototype := ad\<rparr>"] this(2)
  show ?thesis using Some a by (simp add: scanKmerBanded_def Let_def)
qed

lemma scanLoopBanded_membersWithin:
  "membersWithin d K t (clusters s) \<Longrightarrow>
     membersWithin d K t (clusters (scanLoopBanded d K t f th e i s))"
proof (induction d K t f th e i s rule: scanLoopBanded.induct)
  case (1 d K t f th e i s)
  show ?case
  proof (cases "i < e")
    case True
    from "1.IH"[OF True scanKmerBanded_membersWithin[OF "1.prems"]] True
    show ?thesis by (subst scanLoopBanded.simps) simp
  next
    case False
    with "1.prems" show ?thesis by (subst scanLoopBanded.simps) simp
  qed
qed

lemma foldl_invariant:
  "P s \<Longrightarrow> (\<And>s x. P s \<Longrightarrow> P (g s x)) \<Longrightarrow> P (foldl g s xs)"
  by (induction xs arbitrary: s) auto

lemma scanThreads_membersWithin:
  "membersWithin d K t (clusters s) \<Longrightarrow>
     membersWithin d K t (clusters (foldl (\<lambda>s th. scanThread d K t f n th s) s ths))"
  by (rule foldl_invariant[where P = "\<lambda>s. membersWithin d K t (clusters s)"])
     (simp_all add: scanThread_def scanLoopBanded_membersWithin)

lemma seedClustersBanded_membersWithin:
  "membersWithin d K t (clusters s) \<Longrightarrow>
     membersWithin d K t (clusters (seedClustersBanded c r n s))"
  unfolding seedClustersBanded_def
  by (rule foldl_invariant[where P = "\<lambda>s. membersWithin d K t (clusters s)"])
     (simp_all add: seedClustersThread_def Let_def membersWithin_append_new)

lemma DICPB_membersWithin:
  "membersWithin d K t (clusters s) \<Longrightarrow>
     membersWithin d K t
       (clusters (finalState (DoIncrementalClusteringParallelBanded K t d r f c n m s)))"
  by (auto simp: DoIncrementalClusteringParallelBanded_def scanPhaseBanded_def
      finalState_def Let_def scanThreads_membersWithin seedClustersBanded_membersWithin)


lemma nth_beyond_same_length:
  "length xs = length ys \<Longrightarrow> length xs \<le> n \<Longrightarrow> xs ! n = ys ! n"
proof (induction xs ys arbitrary: n rule: list_induct2)
  case Nil
  then show ?case by simp
next
  case (Cons x xs y ys)
  then obtain m where "n = Suc m" by (cases n) auto
  with Cons show ?case by simp
qed

lemma marksLe_refl [simp]: "marksLe f f"
  by (simp add: marksLe_def)

lemma marksLe_trans: "marksLe f g \<Longrightarrow> marksLe g h \<Longrightarrow> marksLe f h"
  by (auto simp: marksLe_def intro: order_trans)

lemma marksLe_update: "marksLe f (f[th := Suc (f ! th)])"
proof -
  have "f ! u \<le> f[th := Suc (f ! th)] ! u" for u
  proof (cases "th < length f")
    case True
    then show ?thesis by (cases "u = th") simp_all
  next
    case False
    then show ?thesis by (simp add: list_update_beyond)
  qed
  then show ?thesis by (simp add: marksLe_def)
qed

lemma scanKmerBanded_marks:
  "marksLe (firstUnallocIndex s) (firstUnallocIndex (scanKmerBanded d K t f th i s))"
  by (simp add: scanKmerBanded_def Let_def marksLe_update split: option.splits)

lemma scanLoopBanded_marks:
  "marksLe (firstUnallocIndex s) (firstUnallocIndex (scanLoopBanded d K t f th e i s))"
proof (induction d K t f th e i s rule: scanLoopBanded.induct)
  case (1 d K t f th e i s)
  show ?case
  proof (cases "i < e")
    case True
    from marksLe_trans[OF scanKmerBanded_marks "1.IH"[OF True]] True
    show ?thesis by (subst scanLoopBanded.simps) simp
  next
    case False
    then show ?thesis by (subst scanLoopBanded.simps) simp
  qed
qed

lemma foldl_relation:
  "(\<And>s. R s s) \<Longrightarrow> (\<And>a b c. R a b \<Longrightarrow> R b c \<Longrightarrow> R a c) \<Longrightarrow> (\<And>s x. R s (g s x))
     \<Longrightarrow> R s (foldl g s xs)"
proof (induction xs arbitrary: s)
  case Nil
  then show ?case by simp
next
  case (Cons x xs)
  have "R (g s x) (foldl g (g s x) xs)" by (rule Cons.IH) (fact Cons.prems)+
  with Cons.prems(2,3) show ?case by (metis foldl_Cons)
qed

lemma scanThreads_marks:
  "marksLe (firstUnallocIndex s)
     (firstUnallocIndex (foldl (\<lambda>s th. scanThread d K t f n th s) s ths))"
  by (rule foldl_relation[where R = "\<lambda>a b. marksLe (firstUnallocIndex a) (firstUnallocIndex b)"])
     (auto simp: scanThread_def scanLoopBanded_marks intro: marksLe_trans)

lemma seedClustersBanded_first [simp]:
  "firstUnallocIndex (seedClustersBanded c r n s) = firstUnallocIndex s"
  unfolding seedClustersBanded_def
  by (rule foldl_invariant[where P = "\<lambda>s'. firstUnallocIndex s' = firstUnallocIndex s"])
     (simp_all add: seedClustersThread_def Let_def)

lemma DICPB_marks:
  "DoIncrementalClusteringParallelBanded K t d r f c n m s = Inr s' \<Longrightarrow>
     marksLe (firstUnallocIndex s) (firstUnallocIndex s')"
  using scanThreads_marks[of s d K t f n "[0..<m]"]
    scanThreads_marks[of "seedClustersBanded c r n s" d K t f n "[0..<m]"]
  by (auto simp: DoIncrementalClusteringParallelBanded_def scanPhaseBanded_def Let_def
      split: if_splits)

lemma foldl_add_mono:
  "(\<And>i. (g i :: nat) \<le> h i) \<Longrightarrow> a \<le> b \<Longrightarrow>
     foldl (\<lambda>acc i. acc + g i) a is \<le> foldl (\<lambda>acc i. acc + h i) b is"
proof (induction "is" arbitrary: a b)
  case Nil
  then show ?case by simp
next
  case (Cons i "is")
  have "a + g i \<le> b + h i" using Cons.prems by (simp add: add_mono)
  from Cons.IH[OF Cons.prems(1) this] show ?case by simp
qed

lemma bandSum_mono:
  "marksLe f f' \<Longrightarrow> bandSum n N f \<le> bandSum n N f'"
  unfolding bandSum_def
  by (rule foldl_add_mono) (auto simp: marksLe_def intro: diff_le_mono)

lemma DICPB_alloc_mono:
  "DoIncrementalClusteringParallelBanded K t d r f c n m s = Inr s' \<Longrightarrow>
     \<forall>N. bandSum n N (firstUnallocIndex s) \<le> bandSum n N (firstUnallocIndex s')"
  by (blast dest: DICPB_marks bandSum_mono)

lemma scanKmerBanded_length [simp]:
  "length (allKmers (scanKmerBanded d K t f th i s)) = length (allKmers s)"
  by (simp add: scanKmerBanded_def Let_def split: option.splits)

lemma scanLoopBanded_length [simp]:
  "length (allKmers (scanLoopBanded d K t f th e i s)) = length (allKmers s)"
proof (induction d K t f th e i s rule: scanLoopBanded.induct)
  case (1 d K t f th e i s)
  show ?case
  proof (cases "i < e")
    case True
    with "1.IH"[OF True] show ?thesis by (subst scanLoopBanded.simps) simp
  next
    case False
    then show ?thesis by (subst scanLoopBanded.simps) simp
  qed
qed

text \<open>
  A mark moves only upwards, and only to a position that is at most the end of its band.
\<close>

lemma markMove_trans:
  assumes "length g = length f" "\<forall>u. g ! u = f ! u \<or> (f ! u < g ! u \<and> g ! u \<le> E u)"
    and "length h = length g" "\<forall>u. h ! u = g ! u \<or> (g ! u < h ! u \<and> h ! u \<le> E u)"
  shows "length h = length f \<and> (\<forall>u. h ! u = f ! u \<or> (f ! u < h ! u \<and> h ! u \<le> (E u :: nat)))"
proof (intro conjI allI)
  show "length h = length f" using assms by simp
  fix u
  from assms(2) have a: "g ! u = f ! u \<or> (f ! u < g ! u \<and> g ! u \<le> E u)" by blast
  from assms(4) have b: "h ! u = g ! u \<or> (g ! u < h ! u \<and> h ! u \<le> E u)" by blast
  from a b show "h ! u = f ! u \<or> (f ! u < h ! u \<and> h ! u \<le> E u)" by auto
qed

lemma scanKmerBanded_move:
  assumes "i < endIdx N n th"
  shows "length (firstUnallocIndex (scanKmerBanded d K t f th i s)) = length (firstUnallocIndex s)
     \<and> (\<forall>u. firstUnallocIndex (scanKmerBanded d K t f th i s) ! u = firstUnallocIndex s ! u
            \<or> (firstUnallocIndex s ! u < firstUnallocIndex (scanKmerBanded d K t f th i s) ! u
               \<and> firstUnallocIndex (scanKmerBanded d K t f th i s) ! u \<le> endIdx N n u))"
proof -
  let ?f = "firstUnallocIndex s"
  have upd: "(?f[th := Suc (?f ! th)]) ! u = ?f ! u
      \<or> (?f ! u < (?f[th := Suc (?f ! th)]) ! u \<and> (?f[th := Suc (?f ! th)]) ! u \<le> endIdx N n u)"
    if "?f ! th < i" for u
  proof (cases "u = th \<and> th < length ?f")
    case True
    with that assms show ?thesis by simp
  next
    case False
    then have "(?f[th := Suc (?f ! th)]) ! u = ?f ! u"
      by (cases "th < length ?f") (auto simp: list_update_beyond)
    then show ?thesis by simp
  qed
  show ?thesis
    using upd by (auto simp: scanKmerBanded_def Let_def split: option.splits)
qed

lemma scanLoopBanded_move:
  assumes "e = endIdx N n th"
  shows "length (firstUnallocIndex (scanLoopBanded d K t f th e i s))
           = length (firstUnallocIndex s)
     \<and> (\<forall>u. firstUnallocIndex (scanLoopBanded d K t f th e i s) ! u = firstUnallocIndex s ! u
            \<or> (firstUnallocIndex s ! u < firstUnallocIndex (scanLoopBanded d K t f th e i s) ! u
               \<and> firstUnallocIndex (scanLoopBanded d K t f th e i s) ! u \<le> endIdx N n u))"
  using assms
proof (induction d K t f th e i s rule: scanLoopBanded.induct)
  case (1 d K t f th e i s)
  show ?case
  proof (cases "i < e")
    case False
    then show ?thesis by (subst (1 2 3 4) scanLoopBanded.simps) simp
  next
    case True
    let ?s1 = "scanKmerBanded d K t f th i s"
    have unf: "scanLoopBanded d K t f th e i s = scanLoopBanded d K t f th e (i + 1) ?s1"
      using True by (subst scanLoopBanded.simps) simp
    from True "1.prems" have "i < endIdx N n th" by simp
    note A = scanKmerBanded_move[OF this, of d K t f s]
    note B = "1.IH"[OF True "1.prems"]
    show ?thesis unfolding unf
      by (rule markMove_trans[OF A[THEN conjunct1] A[THEN conjunct2]
            B[THEN conjunct1] B[THEN conjunct2]])
  qed
qed

lemma scanThreads_move:
  "length (allKmers (foldl (\<lambda>s th. scanThread d K t f n th s) s ths)) = length (allKmers s)
   \<and> length (firstUnallocIndex (foldl (\<lambda>s th. scanThread d K t f n th s) s ths))
       = length (firstUnallocIndex s)
   \<and> (\<forall>u. firstUnallocIndex (foldl (\<lambda>s th. scanThread d K t f n th s) s ths) ! u
             = firstUnallocIndex s ! u
          \<or> (firstUnallocIndex s ! u
                < firstUnallocIndex (foldl (\<lambda>s th. scanThread d K t f n th s) s ths) ! u
             \<and> firstUnallocIndex (foldl (\<lambda>s th. scanThread d K t f n th s) s ths) ! u
                \<le> endIdx (length (allKmers s)) n u))"
proof (induction ths arbitrary: s)
  case Nil
  show ?case by simp
next
  case (Cons th ths)
  let ?s1 = "scanThread d K t f n th s"
  have l1: "length (allKmers ?s1) = length (allKmers s)" by (simp add: scanThread_def)
  have A: "length (firstUnallocIndex ?s1) = length (firstUnallocIndex s)
     \<and> (\<forall>u. firstUnallocIndex ?s1 ! u = firstUnallocIndex s ! u
            \<or> (firstUnallocIndex s ! u < firstUnallocIndex ?s1 ! u
               \<and> firstUnallocIndex ?s1 ! u \<le> endIdx (length (allKmers s)) n u))"
    unfolding scanThread_def by (rule scanLoopBanded_move) simp
  note B = Cons.IH[of ?s1, unfolded l1]
  have "length (firstUnallocIndex (foldl (\<lambda>s th. scanThread d K t f n th s) ?s1 ths))
       = length (firstUnallocIndex s)
   \<and> (\<forall>u. firstUnallocIndex (foldl (\<lambda>s th. scanThread d K t f n th s) ?s1 ths) ! u
             = firstUnallocIndex s ! u
          \<or> (firstUnallocIndex s ! u
                < firstUnallocIndex (foldl (\<lambda>s th. scanThread d K t f n th s) ?s1 ths) ! u
             \<and> firstUnallocIndex (foldl (\<lambda>s th. scanThread d K t f n th s) ?s1 ths) ! u
                \<le> endIdx (length (allKmers s)) n u))"
    by (rule markMove_trans[OF A[THEN conjunct1] A[THEN conjunct2]
          B[THEN conjunct2, THEN conjunct1] B[THEN conjunct2, THEN conjunct2]])
  with B[THEN conjunct1] show ?case by simp
qed

lemma seedClustersBanded_allKmers [simp]:
  "allKmers (seedClustersBanded c r n s) = allKmers s"
  unfolding seedClustersBanded_def
  by (rule foldl_invariant[where P = "\<lambda>s'. allKmers s' = allKmers s"])
     (simp_all add: seedClustersThread_def Let_def)

lemma DICPB_move:
  assumes "DoIncrementalClusteringParallelBanded K t d r f c n m s = Inr s'"
  shows "length (allKmers s') = length (allKmers s)
   \<and> length (firstUnallocIndex s') = length (firstUnallocIndex s)
   \<and> (\<forall>u. firstUnallocIndex s' ! u = firstUnallocIndex s ! u
          \<or> (firstUnallocIndex s ! u < firstUnallocIndex s' ! u
             \<and> firstUnallocIndex s' ! u \<le> endIdx (length (allKmers s)) n u))"
proof -
  let ?s1 = "if r > 0 then seedClustersBanded c r n s else s"
  have s1: "allKmers ?s1 = allKmers s" "firstUnallocIndex ?s1 = firstUnallocIndex s"
    by simp_all
  from assms have "s' = foldl (\<lambda>s th. scanThread d K t f n th s) ?s1 [0 ..< m]"
    by (auto simp: DoIncrementalClusteringParallelBanded_def scanPhaseBanded_def Let_def
        split: if_splits)
  then show ?thesis
    using scanThreads_move[of d K t f n ?s1 "[0 ..< m]"] unfolding s1 by simp
qed

lemma sum_list_strict:
  assumes "\<forall>x \<in> set xs. (g x :: nat) \<le> h x" "\<exists>x \<in> set xs. g x < h x"
  shows "sum_list (map g xs) < sum_list (map h xs)"
  using assms
proof (induction xs)
  case Nil
  then show ?case by simp
next
  case (Cons x xs)
  have le: "sum_list (map g xs) \<le> sum_list (map h xs)"
    using Cons.prems(1) by (intro sum_list_mono) simp
  show ?case
  proof (cases "g x < h x")
    case True
    with le show ?thesis by simp
  next
    case False
    with Cons.prems have "\<exists>x \<in> set xs. g x < h x" and "g x \<le> h x" by auto
    with Cons.IH Cons.prems(1) show ?thesis by simp
  qed
qed

lemma bandPotential_move:
  assumes "length f' = length f"
    and "\<forall>u. f' ! u = f ! u \<or> (f ! u < f' ! u \<and> f' ! u \<le> endIdx N n u)"
  shows "bandPotential N n f' \<le> bandPotential N n f"
    and "f' \<noteq> f \<Longrightarrow> bandPotential N n f' < bandPotential N n f"
proof -
  have le: "endIdx N n u - f' ! u \<le> endIdx N n u - f ! u" for u
    using assms(2)[rule_format, of u] by auto
  show "bandPotential N n f' \<le> bandPotential N n f"
    unfolding bandPotential_def assms(1) by (rule sum_list_mono) (simp add: le)
  assume "f' \<noteq> f"
  with assms(1) obtain u where u: "u < length f" "f' ! u \<noteq> f ! u"
    by (metis nth_equalityI)
  with assms(2)[rule_format, of u] have "endIdx N n u - f' ! u < endIdx N n u - f ! u"
    by auto
  with u(1) have "\<exists>u \<in> set [0 ..< length f]. endIdx N n u - f' ! u < endIdx N n u - f ! u"
    by auto
  then show "bandPotential N n f' < bandPotential N n f"
    unfolding bandPotential_def assms(1) by (intro sum_list_strict) (simp_all add: le)
qed

lemma DICPB_measure:
  assumes r: "DoIncrementalClusteringParallelBanded K t d inc f c n m s = Inr s'"
    and ne: "GetUnallocated n N (firstUnallocIndex s') \<noteq> na"
  shows "2 * bandPotential (length (allKmers s')) n (firstUnallocIndex s')
       < 2 * bandPotential (length (allKmers s)) n (firstUnallocIndex s)
           + (if na = GetUnallocated n N (firstUnallocIndex s) then 0 else 1)"
proof -
  note M = DICPB_move[OF r]
  from M have len: "length (allKmers s') = length (allKmers s)" by (rule conjunct1)
  note P = bandPotential_move[OF M[THEN conjunct2, THEN conjunct1]
      M[THEN conjunct2, THEN conjunct2]]
  show ?thesis
  proof (cases "na = GetUnallocated n N (firstUnallocIndex s)")
    case True
    with ne have "firstUnallocIndex s' \<noteq> firstUnallocIndex s" by auto
    from P(2)[OF this] True show ?thesis by (simp add: len)
  next
    case False
    with P(1) show ?thesis by (simp add: len)
  qed
qed

termination passLoopBanded
  apply (relation "measure (\<lambda>(w, t, d, ci, cp, n, m, N, numAllocated, fci, inc, s).
      2 * bandPotential (length (allKmers s)) n (firstUnallocIndex s)
        + (if numAllocated = GetUnallocated n N (firstUnallocIndex s) then 0 else 1))")
   apply simp
  apply (simp add: DICPB_measure)
  done

declare passLoop.simps [simp del]
declare passLoopBanded.simps [simp del]

lemma finalState_simps [simp]:
  "finalState (Inl (e, s)) = s" "finalState (Inr s) = s"
  by (simp_all add: finalState_def)

lemma passLoop_membersWithin:
  "membersWithin d w t (clusters s) \<Longrightarrow>
     membersWithin d w t (clusters (finalState (passLoop w t d ci cp N fci inc s)))"
proof (induction w t d ci cp N fci inc s rule: passLoop.induct)
  case (1 w t d ci cp N fci inc s)
  show ?case
  proof (cases "firstUnallocIndex s < N")
    case False
    with "1.prems" show ?thesis by (subst passLoop.simps) simp
  next
    case True
    show ?thesis
    proof (cases "DoIncrementalClusteringParallel w t d inc fci cp s")
      case (Inl a)
      from DICP_membersWithin[OF "1.prems", of inc fci cp] Inl True
      show ?thesis by (subst passLoop.simps) simp
    next
      case (Inr s')
      from DICP_membersWithin[OF "1.prems", of inc fci cp] Inr
      have inv': "membersWithin d w t (clusters s')" by simp
      show ?thesis
      proof (cases "firstUnallocIndex s' = firstUnallocIndex s")
        case same: True
        with inv' Inr True show ?thesis by (subst passLoop.simps) simp
      next
        case moved: False
        from "1.IH"[OF True refl Inr moved inv'] Inr True moved
        show ?thesis by (subst passLoop.simps) simp
      qed
    qed
  qed
qed

lemma passLoopBanded_membersWithin:
  "membersWithin d w t (clusters s) \<Longrightarrow>
     membersWithin d w t (clusters (finalState (passLoopBanded w t d ci cp n m N na fci inc s)))"
proof (induction w t d ci cp n m N na fci inc s rule: passLoopBanded.induct)
  case (1 w t d ci cp n m N na fci inc s)
  show ?case
  proof (cases "na < N")
    case False
    with "1.prems" show ?thesis by (subst passLoopBanded.simps) simp
  next
    case True
    show ?thesis
    proof (cases "DoIncrementalClusteringParallelBanded w t d inc fci cp n m s")
      case (Inl a)
      from DICPB_membersWithin[OF "1.prems", of inc fci cp n m] Inl True
      show ?thesis by (subst passLoopBanded.simps) simp
    next
      case (Inr s')
      from DICPB_membersWithin[OF "1.prems", of inc fci cp n m] Inr
      have inv': "membersWithin d w t (clusters s')" by simp
      show ?thesis
      proof (cases "GetUnallocated n N (firstUnallocIndex s') = na")
        case same: True
        with inv' Inr True show ?thesis by (subst passLoopBanded.simps) (simp add: Let_def)
      next
        case moved: False
        from "1.IH"[OF True refl Inr refl moved inv'] Inr True moved
        show ?thesis by (subst passLoopBanded.simps) (simp add: Let_def)
      qed
    qed
  qed
qed

lemma filterLoop_clusters [simp]: "clusters (filterLoop d w t N i s) = clusters s"
proof (induction d w t N i s rule: filterLoop.induct)
  case (1 d w t N i s)
  show ?case
  proof (cases "i < N")
    case True
    with "1.IH"[OF True refl refl refl refl] show ?thesis
      by (subst filterLoop.simps) (simp add: Let_def)
  next
    case False
    then show ?thesis by (subst filterLoop.simps) simp
  qed
qed

lemma filterLoopBanded_clusters [simp]:
  "clusters (filterLoopBanded d w t th e i s) = clusters s"
proof (induction d w t th e i s rule: filterLoopBanded.induct)
  case (1 d w t th e i s)
  show ?case
  proof (cases "i < e")
    case True
    with "1.IH"[OF True refl refl refl refl refl] show ?thesis
      by (subst filterLoopBanded.simps) (simp add: Let_def)
  next
    case False
    then show ?thesis by (subst filterLoopBanded.simps) simp
  qed
qed

lemma setupThread_clusters [simp]:
  "clusters (fst (setupThread d w t n th sr)) = clusters (fst sr)"
  by (simp add: setupThread_def Let_def split: prod.splits)

lemma setupThreads_clusters [simp]:
  "clusters (fst (foldl (\<lambda>sr th. setupThread d w t n th sr) sr ths)) = clusters (fst sr)"
  by (rule foldl_invariant[where P = "\<lambda>sr'. clusters (fst sr') = clusters (fst sr)"]) simp_all

lemma setupPhase_clusters [simp]: "clusters (setupPhase kmerIndex w t d rand cs) = cs"
  by (simp add: setupPhase_def Let_def split: prod.splits)

lemma setupPhaseBanded_clusters [simp]:
  "clusters (setupPhaseBanded kmerIndex w t d rand cs n m) = cs"
  by (simp add: setupPhaseBanded_def Let_def)


subsection \<open>The membership invariant\<close>


subsection \<open>The scan as a fold of first-fit assignments\<close>

lemma AddParallel_prototype [simp]: "prototype (AddParallel c k) = prototype c"
  by (simp add: AddParallel_def)

lemma map_prototype_update [simp]:
  "map prototype (cs[j := AddParallel (cs ! j) k]) = map prototype cs"
proof (cases "j < length cs")
  case True
  then show ?thesis by (simp add: map_update list_update_same_conv)
next
  case False
  then show ?thesis by (simp add: list_update_beyond)
qed

lemma scanKmer_clusters:
  "clusters (scanKmer d K t fci i s) = assignKmer d K t fci (clusters s) (allKmers s ! i)"
  by (simp add: scanKmer_def assignKmer_def Let_def split: option.splits)

lemma assignKmer_protos [simp]: "map prototype (assignKmer d K t fci cs k) = map prototype cs"
  by (simp add: assignKmer_def split: option.splits)

lemma assignKmer_length [simp]: "length (assignKmer d K t fci cs k) = length cs"
  by (simp add: assignKmer_def split: option.splits)

lemma foldl_assignKmer_protos [simp]:
  "map prototype (foldl (assignKmer d K t fci) cs ks) = map prototype cs"
  by (induction ks arbitrary: cs) simp_all

lemma foldl_assignKmer_length [simp]:
  "length (foldl (assignKmer d K t fci) cs ks) = length cs"
  by (induction ks arbitrary: cs) simp_all

lemma scanKmer_tail:
  assumes "firstUnallocIndex s \<le> i" and "i < p"
  shows "allKmers (scanKmer d K t fci i s) ! p = allKmers s ! p"
  using assms by (simp add: scanKmer_def Let_def swap_def split: option.splits)

lemma scanKmer_first_le:
  assumes "firstUnallocIndex s \<le> i"
  shows "firstUnallocIndex (scanKmer d K t fci i s) \<le> i + 1"
  using assms by (simp add: scanKmer_def Let_def split: option.splits)

lemma scanLoop_length [simp]:
  "length (allKmers (scanLoop d K t fci i s)) = length (allKmers s)"
proof (induction d K t fci i s rule: scanLoop.induct)
  case (1 d K t fci i s)
  then show ?case by (subst scanLoop.simps) simp
qed

lemma scanLoop_first_le:
  "firstUnallocIndex s \<le> i \<Longrightarrow> i \<le> length (allKmers s) \<Longrightarrow>
     firstUnallocIndex (scanLoop d K t fci i s) \<le> length (allKmers s)"
proof (induction d K t fci i s rule: scanLoop.induct)
  case (1 d K t fci i s)
  show ?case
  proof (cases "i < length (allKmers s)")
    case True
    from "1.IH"[OF True scanKmer_first_le[OF "1.prems"(1)]] True
    show ?thesis by (subst scanLoop.simps) simp
  next
    case False
    with "1.prems" show ?thesis by (subst scanLoop.simps) simp
  qed
qed

lemma scanLoop_clusters:
  "firstUnallocIndex s \<le> i \<Longrightarrow>
     clusters (scanLoop d K t fci i s)
       = foldl (assignKmer d K t fci) (clusters s)
           (map ((!) (allKmers s)) [i ..< length (allKmers s)])"
proof (induction d K t fci i s rule: scanLoop.induct)
  case (1 d K t fci i s)
  show ?case
  proof (cases "i < length (allKmers s)")
    case False
    then show ?thesis by (subst scanLoop.simps) simp
  next
    case True
    let ?s' = "scanKmer d K t fci i s"
    have same: "map ((!) (allKmers ?s')) [i + 1 ..< length (allKmers s)]
        = map ((!) (allKmers s)) [i + 1 ..< length (allKmers s)]"
      using scanKmer_tail[OF "1.prems"] by simp
    have "clusters (scanLoop d K t fci i s) = clusters (scanLoop d K t fci (i + 1) ?s')"
      using True by (subst scanLoop.simps) simp
    also have "\<dots> = foldl (assignKmer d K t fci) (clusters ?s')
           (map ((!) (allKmers ?s')) [i + 1 ..< length (allKmers ?s')])"
      using "1.IH"[OF True] scanKmer_first_le[OF "1.prems"] by simp
    also have "\<dots> = foldl (assignKmer d K t fci) (clusters ?s')
           (map ((!) (allKmers s)) [i + 1 ..< length (allKmers s)])"
      by (simp only: same scanKmer_length)
    also have "\<dots> = foldl (assignKmer d K t fci) (clusters s)
           (map ((!) (allKmers s)) [i ..< length (allKmers s)])"
      using True by (simp add: scanKmer_clusters upt_conv_Cons)
    finally show ?thesis .
  qed
qed

lemma fits_protos:
  "map prototype cs = map prototype cs' \<Longrightarrow> fits d K t fci cs k j = fits d K t fci cs' k j"
proof -
  assume a: "map prototype cs = map prototype cs'"
  then have len: "length cs = length cs'" by (metis length_map)
  have "prototype (cs ! j) = prototype (cs' ! j)" if "j < length cs"
    using a that len by (metis nth_map)
  with len show ?thesis by (auto simp: fits_def)
qed

lemma firstFit_protos:
  "map prototype cs = map prototype cs' \<Longrightarrow>
     firstFit d K t fci cs k j = firstFit d K t fci cs' k j"
  by (simp add: firstFit_def fits_protos[of cs cs'])

lemma withDistanceTo_protos:
  "map prototype cs = map prototype cs' \<Longrightarrow> j < length cs \<Longrightarrow>
     withDistanceTo d K cs j k = withDistanceTo d K cs' j k"
proof -
  assume a: "map prototype cs = map prototype cs'" and j: "j < length cs"
  then have len: "length cs = length cs'" by (metis length_map)
  have "prototype (cs ! j) = prototype (cs' ! j)"
    using a j len by (metis nth_map)
  then show ?thesis by (simp add: withDistanceTo_def)
qed

lemma firstFit_unique:
  "firstFit d K t fci cs k j \<Longrightarrow> firstFit d K t fci cs k j' \<Longrightarrow> j = j'"
  by (rule ccontr) (auto simp: firstFit_def list_all_iff neq_iff)

lemma findAttractor_Some_iff:
  "findAttractor d K t cs (encoding k) fci = Some (j, ad) \<longleftrightarrow>
     firstFit d K t fci cs k j \<and> ad = d (encoding k) (encoding (prototype (cs ! j))) K"
proof
  assume "findAttractor d K t cs (encoding k) fci = Some (j, ad)"
  from findAttractor_Some[OF this]
  show "firstFit d K t fci cs k j \<and> ad = d (encoding k) (encoding (prototype (cs ! j))) K"
    by (auto simp: firstFit_def fits_def list_all_iff)
next
  assume r: "firstFit d K t fci cs k j \<and> ad = d (encoding k) (encoding (prototype (cs ! j))) K"
  show "findAttractor d K t cs (encoding k) fci = Some (j, ad)"
  proof (cases "findAttractor d K t cs (encoding k) fci")
    case None
    from r have "fci \<le> j" "j < length cs"
      "real (unat (d (encoding k) (encoding (prototype (cs ! j))) K)) \<le> t"
      by (auto simp: firstFit_def fits_def)
    with findAttractor_None[OF None, of j] show ?thesis by simp
  next
    case (Some a)
    obtain j' ad' where a: "a = (j', ad')" by (cases a)
    from findAttractor_Some[OF Some[unfolded a]]
    have "firstFit d K t fci cs k j'" and ad': "ad' = d (encoding k) (encoding (prototype (cs ! j'))) K"
      by (auto simp: firstFit_def fits_def list_all_iff)
    with r have "j' = j" using firstFit_unique by blast
    with Some a ad' r show ?thesis by simp
  qed
qed

lemma findAttractor_None_iff:
  "findAttractor d K t cs (encoding k) fci = None \<longleftrightarrow> fitsNone d K t fci cs k"
proof
  assume "findAttractor d K t cs (encoding k) fci = None"
  from findAttractor_None[OF this] show "fitsNone d K t fci cs k"
    by (auto simp: fitsNone_def fits_def list_all_iff)
next
  assume n: "fitsNone d K t fci cs k"
  show "findAttractor d K t cs (encoding k) fci = None"
  proof (cases "findAttractor d K t cs (encoding k) fci")
    case None
    then show ?thesis .
  next
    case (Some a)
    obtain j ad where a: "a = (j, ad)" by (cases a)
    from findAttractor_Some[OF Some[unfolded a]] have "fits d K t fci cs k j" "j < length cs"
      by (auto simp: fits_def)
    with n show ?thesis by (auto simp: fitsNone_def list_all_iff)
  qed
qed

lemma assignKmer_members:
  assumes "j < length cs"
  shows "kmers (assignKmer d K t fci cs k ! j)
     = kmers (cs ! j) @ (if firstFit d K t fci cs k j then [withDistanceTo d K cs j k] else [])"
proof (cases "findAttractor d K t cs (encoding k) fci")
  case None
  then have "fitsNone d K t fci cs k" by (simp add: findAttractor_None_iff)
  with assms have "\<not> firstFit d K t fci cs k j"
    by (auto simp: fitsNone_def firstFit_def list_all_iff)
  with None show ?thesis by (simp add: assignKmer_def)
next
  case (Some a)
  obtain j' ad where a: "a = (j', ad)" by (cases a)
  from Some a have ff: "firstFit d K t fci cs k j'"
    and ad: "ad = d (encoding k) (encoding (prototype (cs ! j'))) K"
    by (simp_all add: findAttractor_Some_iff)
  show ?thesis
  proof (cases "j' = j")
    case True
    with Some a ff ad assms show ?thesis
      by (simp add: assignKmer_def AddParallel_def withDistanceTo_def)
  next
    case False
    with ff have "\<not> firstFit d K t fci cs k j" using firstFit_unique by blast
    with Some a False show ?thesis by (simp add: assignKmer_def)
  qed
qed

lemma foldl_assignKmer_members:
  "j < length cs \<Longrightarrow>
     kmers (foldl (assignKmer d K t fci) cs ks ! j)
       = kmers (cs ! j) @ map (withDistanceTo d K cs j)
                            (filter (\<lambda>k. firstFit d K t fci cs k j) ks)"
proof (induction ks arbitrary: cs)
  case Nil
  then show ?case by simp
next
  case (Cons k ks)
  let ?cs1 = "assignKmer d K t fci cs k"
  have p: "map prototype ?cs1 = map prototype cs" by simp
  have j1: "j < length ?cs1" using Cons.prems by simp
  have "kmers (foldl (assignKmer d K t fci) ?cs1 ks ! j)
      = kmers (?cs1 ! j) @ map (withDistanceTo d K ?cs1 j)
                            (filter (\<lambda>k. firstFit d K t fci ?cs1 k j) ks)"
    by (rule Cons.IH[OF j1])
  also have "(\<lambda>k. firstFit d K t fci ?cs1 k j) = (\<lambda>k. firstFit d K t fci cs k j)"
    using firstFit_protos[OF p] by blast
  also have "withDistanceTo d K ?cs1 j = withDistanceTo d K cs j"
    using withDistanceTo_protos[OF p j1] by blast
  finally show ?case using Cons.prems by (simp add: assignKmer_members)
qed

lemma in_segment_iff: "x \<in> set (segment ks a b) \<longleftrightarrow> (\<exists>p. a \<le> p \<and> p < b \<and> x = ks ! p)"
  by (auto simp: segment_def)

lemma fitsNone_protos:
  "map prototype cs = map prototype cs' \<Longrightarrow> fitsNone d K t fci cs k = fitsNone d K t fci cs' k"
proof -
  assume a: "map prototype cs = map prototype cs'"
  then have "length cs = length cs'" by (metis length_map)
  with fits_protos[OF a] show ?thesis by (simp add: fitsNone_def)
qed

lemma scanKmer_protos [simp]:
  "map prototype (clusters (scanKmer d K t fci i s)) = map prototype (clusters s)"
  by (simp add: scanKmer_clusters)

lemma scanKmer_pending:
  assumes f: "firstUnallocIndex s \<le> i" and i: "i < length (allKmers s)"
    and x: "x \<in> set (segment (allKmers s) (firstUnallocIndex s) i)
            \<or> (x = allKmers s ! i \<and> fitsNone d K t fci (clusters s) x)"
  shows "x \<in> set (segment (allKmers (scanKmer d K t fci i s))
                  (firstUnallocIndex (scanKmer d K t fci i s)) (i + 1))"
proof (cases "findAttractor d K t (clusters s) (encoding (allKmers s ! i)) fci")
  case None
  then have s': "scanKmer d K t fci i s = s" by (simp add: scanKmer_def)
  from x show ?thesis unfolding s' in_segment_iff using f
    by (metis Suc_eq_plus1 le_imp_less_Suc less_SucI order_le_less_trans order_refl)
next
  case (Some a)
  obtain j ad where a: "a = (j, ad)" by (cases a)
  from Some have "\<not> fitsNone d K t fci (clusters s) (allKmers s ! i)"
    by (simp add: findAttractor_None_iff[symmetric])
  with x obtain p where p: "firstUnallocIndex s \<le> p" "p < i" "x = allKmers s ! p"
    by (auto simp: in_segment_iff)
  let ?k' = "(allKmers s ! i)\<lparr>distanceFromPrototype := ad\<rparr>"
  let ?f = "firstUnallocIndex s"
  from p have gt: "?f < i" by simp
  have ks': "allKmers (scanKmer d K t fci i s) = swap ?f i ((allKmers s)[i := ?k'])"
    and f': "firstUnallocIndex (scanKmer d K t fci i s) = ?f + 1"
    using Some a gt by (simp_all add: scanKmer_def Let_def)
  show ?thesis
  proof (cases "p = ?f")
    case True
    have "swap ?f i ((allKmers s)[i := ?k']) ! i = allKmers s ! ?f"
      using gt i by (simp add: swap_def)
    with True p gt show ?thesis unfolding ks' f' in_segment_iff
      by (intro exI[of _ i]) simp
  next
    case False
    have "swap ?f i ((allKmers s)[i := ?k']) ! p = allKmers s ! p"
      using False p by (simp add: swap_def)
    with False p show ?thesis unfolding ks' f' in_segment_iff
      by (intro exI[of _ p]) simp
  qed
qed

lemma scanLoop_unassigned:
  "firstUnallocIndex s \<le> i \<Longrightarrow> i \<le> length (allKmers s) \<Longrightarrow>
   x \<in> set (segment (allKmers s) (firstUnallocIndex s) i)
     \<or> (x \<in> set (segment (allKmers s) i (length (allKmers s)))
        \<and> fitsNone d K t fci (clusters s) x) \<Longrightarrow>
   x \<in> set (segment (allKmers (scanLoop d K t fci i s))
              (firstUnallocIndex (scanLoop d K t fci i s)) (length (allKmers s)))"
proof (induction d K t fci i s rule: scanLoop.induct)
  case (1 d K t fci i s)
  show ?case
  proof (cases "i < length (allKmers s)")
    case False
    with "1.prems" have "i = length (allKmers s)" by simp
    with "1.prems"(3) show ?thesis
      by (subst (1 2) scanLoop.simps) (auto simp: in_segment_iff)
  next
    case True
    let ?s' = "scanKmer d K t fci i s"
    have f': "firstUnallocIndex ?s' \<le> i + 1" by (rule scanKmer_first_le[OF "1.prems"(1)])
    have i': "i + 1 \<le> length (allKmers ?s')" using True by simp
    have x': "x \<in> set (segment (allKmers ?s') (firstUnallocIndex ?s') (i + 1))
       \<or> (x \<in> set (segment (allKmers ?s') (i + 1) (length (allKmers ?s')))
          \<and> fitsNone d K t fci (clusters ?s') x)"
    proof -
      from "1.prems"(3) consider
        (pend) "x \<in> set (segment (allKmers s) (firstUnallocIndex s) i)"
        | (here) "x = allKmers s ! i" "fitsNone d K t fci (clusters s) x"
        | (later) p where "i < p" "p < length (allKmers s)" "x = allKmers s ! p"
            "fitsNone d K t fci (clusters s) x"
        unfolding in_segment_iff by (metis le_neq_implies_less)
      then show ?thesis
      proof cases
        case pend
        then show ?thesis using scanKmer_pending[OF "1.prems"(1) True] by blast
      next
        case here
        then show ?thesis using scanKmer_pending[OF "1.prems"(1) True] by blast
      next
        case later
        have "allKmers ?s' ! p = x"
          using scanKmer_tail[OF "1.prems"(1) later(1)] later(3) by simp
        moreover have "fitsNone d K t fci (clusters ?s') x"
          using later(4) fitsNone_protos[of "clusters ?s'" "clusters s"] by simp
        ultimately show ?thesis using later(1,2) unfolding in_segment_iff
          by (intro disjI2 conjI exI[of _ p]) simp_all
      qed
    qed
    from "1.IH"[OF True f' i' x'] True show ?thesis
      by (subst (1 2) scanLoop.simps) simp
  qed
qed

subsection \<open>The scan of one band\<close>

lemma scanKmerBanded_clusters:
  "clusters (scanKmerBanded d K t fci th i s)
     = assignKmer d K t fci (clusters s) (allKmers s ! i)"
  by (simp add: scanKmerBanded_def assignKmer_def Let_def split: option.splits)

lemma scanKmerBanded_tail:
  assumes "firstUnallocIndex s ! th \<le> i" and "i < p"
  shows "allKmers (scanKmerBanded d K t fci th i s) ! p = allKmers s ! p"
  using assms by (simp add: scanKmerBanded_def Let_def swap_def split: option.splits)

lemma scanKmerBanded_head:
  assumes "firstUnallocIndex s ! th \<le> i" and "p < firstUnallocIndex s ! th"
  shows "allKmers (scanKmerBanded d K t fci th i s) ! p = allKmers s ! p"
  using assms by (simp add: scanKmerBanded_def Let_def swap_def split: option.splits)

lemma scanKmerBanded_marks_length [simp]:
  "length (firstUnallocIndex (scanKmerBanded d K t fci th i s)) = length (firstUnallocIndex s)"
  by (simp add: scanKmerBanded_def Let_def split: option.splits)

lemma scanKmerBanded_mark_other:
  "u \<noteq> th \<Longrightarrow>
     firstUnallocIndex (scanKmerBanded d K t fci th i s) ! u = firstUnallocIndex s ! u"
  by (simp add: scanKmerBanded_def Let_def split: option.splits)

lemma scanKmerBanded_mark_le:
  assumes "firstUnallocIndex s ! th \<le> i"
  shows "firstUnallocIndex (scanKmerBanded d K t fci th i s) ! th \<le> i"
proof (cases "th < length (firstUnallocIndex s)")
  case True
  with assms show ?thesis
    by (simp add: scanKmerBanded_def Let_def split: option.splits)
next
  case False
  with assms show ?thesis
    by (simp add: scanKmerBanded_def Let_def list_update_beyond split: option.splits)
qed

lemma scanKmerBanded_mark_ge:
  "firstUnallocIndex s ! th \<le> firstUnallocIndex (scanKmerBanded d K t fci th i s) ! th"
  using scanKmerBanded_marks[of s d K t fci th i] by (simp add: marksLe_def)

lemma scanKmerBanded_pending:
  assumes th: "th < length (firstUnallocIndex s)"
    and f: "firstUnallocIndex s ! th \<le> i" and i: "i < length (allKmers s)"
    and x: "x \<in> set (segment (allKmers s) (firstUnallocIndex s ! th) i)
            \<or> (x = allKmers s ! i \<and> fitsNone d K t fci (clusters s) x)"
  shows "x \<in> set (segment (allKmers (scanKmerBanded d K t fci th i s))
                  (firstUnallocIndex (scanKmerBanded d K t fci th i s) ! th) (i + 1))"
proof (cases "findAttractor d K t (clusters s) (encoding (allKmers s ! i)) fci")
  case None
  then have s': "scanKmerBanded d K t fci th i s = s" by (simp add: scanKmerBanded_def)
  from x show ?thesis unfolding s' in_segment_iff using f
    by (metis Suc_eq_plus1 le_imp_less_Suc less_SucI order_le_less_trans order_refl)
next
  case (Some a)
  obtain j ad where a: "a = (j, ad)" by (cases a)
  from Some have "\<not> fitsNone d K t fci (clusters s) (allKmers s ! i)"
    by (simp add: findAttractor_None_iff[symmetric])
  with x obtain p where p: "firstUnallocIndex s ! th \<le> p" "p < i" "x = allKmers s ! p"
    by (auto simp: in_segment_iff)
  let ?k' = "(allKmers s ! i)\<lparr>distanceFromPrototype := ad\<rparr>"
  let ?f = "firstUnallocIndex s ! th"
  from p have gt: "?f < i" by simp
  have ks': "allKmers (scanKmerBanded d K t fci th i s) = swap ?f i ((allKmers s)[i := ?k'])"
    and f': "firstUnallocIndex (scanKmerBanded d K t fci th i s) ! th = ?f + 1"
    using Some a gt th by (simp_all add: scanKmerBanded_def Let_def)
  show ?thesis
  proof (cases "p = ?f")
    case True
    have "swap ?f i ((allKmers s)[i := ?k']) ! i = allKmers s ! ?f"
      using gt i by (simp add: swap_def)
    with True p gt show ?thesis unfolding ks' f' in_segment_iff
      by (intro exI[of _ i]) simp
  next
    case False
    have "swap ?f i ((allKmers s)[i := ?k']) ! p = allKmers s ! p"
      using False p by (simp add: swap_def)
    with False p show ?thesis unfolding ks' f' in_segment_iff
      by (intro exI[of _ p]) simp
  qed
qed

lemma scanKmerBanded_protos [simp]:
  "map prototype (clusters (scanKmerBanded d K t fci th i s)) = map prototype (clusters s)"
  by (simp add: scanKmerBanded_clusters)

text \<open>The loop of one thread.\<close>

lemma scanLoopBanded_marks_length [simp]:
  "length (firstUnallocIndex (scanLoopBanded d K t fci th e i s))
     = length (firstUnallocIndex s)"
proof (induction d K t fci th e i s rule: scanLoopBanded.induct)
  case (1 d K t fci th e i s)
  then show ?case by (subst scanLoopBanded.simps) simp
qed

lemma scanLoopBanded_mark_other:
  "u \<noteq> th \<Longrightarrow>
     firstUnallocIndex (scanLoopBanded d K t fci th e i s) ! u = firstUnallocIndex s ! u"
proof (induction d K t fci th e i s rule: scanLoopBanded.induct)
  case (1 d K t fci th e i s)
  then show ?case
    by (subst scanLoopBanded.simps) (simp add: scanKmerBanded_mark_other)
qed

lemma scanLoopBanded_mark_le:
  "firstUnallocIndex s ! th \<le> i \<Longrightarrow> i \<le> e \<Longrightarrow>
     firstUnallocIndex (scanLoopBanded d K t fci th e i s) ! th \<le> e"
proof (induction d K t fci th e i s rule: scanLoopBanded.induct)
  case (1 d K t fci th e i s)
  show ?case
  proof (cases "i < e")
    case True
    have "firstUnallocIndex (scanKmerBanded d K t fci th i s) ! th \<le> i + 1"
      using scanKmerBanded_mark_le[OF "1.prems"(1)] by (simp add: le_SucI)
    from "1.IH"[OF True this] True show ?thesis
      by (subst scanLoopBanded.simps) simp
  next
    case False
    with "1.prems" show ?thesis by (subst scanLoopBanded.simps) simp
  qed
qed

lemma scanLoopBanded_mark_ge:
  "firstUnallocIndex s ! th \<le> firstUnallocIndex (scanLoopBanded d K t fci th e i s) ! th"
  using scanLoopBanded_marks[of s d K t fci th e i] by (simp add: marksLe_def)

lemma scanLoopBanded_outside:
  "firstUnallocIndex s ! th \<le> i \<Longrightarrow> p < firstUnallocIndex s ! th \<or> e \<le> p \<Longrightarrow>
     allKmers (scanLoopBanded d K t fci th e i s) ! p = allKmers s ! p"
proof (induction d K t fci th e i s rule: scanLoopBanded.induct)
  case (1 d K t fci th e i s)
  show ?case
  proof (cases "i < e")
    case False
    then show ?thesis by (subst scanLoopBanded.simps) simp
  next
    case True
    let ?s' = "scanKmerBanded d K t fci th i s"
    have f': "firstUnallocIndex ?s' ! th \<le> i + 1"
      using scanKmerBanded_mark_le[OF "1.prems"(1)] by (simp add: le_SucI)
    have p': "p < firstUnallocIndex ?s' ! th \<or> e \<le> p"
      using "1.prems"(2) scanKmerBanded_mark_ge[of s th d K t fci i] by auto
    have "allKmers ?s' ! p = allKmers s ! p"
      using "1.prems" True scanKmerBanded_tail[OF "1.prems"(1), of p]
        scanKmerBanded_head[OF "1.prems"(1), of p] by auto
    with "1.IH"[OF True f' p'] True show ?thesis
      by (subst scanLoopBanded.simps) simp
  qed
qed

lemma scanLoopBanded_clusters:
  "firstUnallocIndex s ! th \<le> i \<Longrightarrow>
     clusters (scanLoopBanded d K t fci th e i s)
       = foldl (assignKmer d K t fci) (clusters s) (segment (allKmers s) i e)"
proof (induction d K t fci th e i s rule: scanLoopBanded.induct)
  case (1 d K t fci th e i s)
  show ?case
  proof (cases "i < e")
    case False
    then show ?thesis by (subst scanLoopBanded.simps) (simp add: segment_def)
  next
    case True
    let ?s' = "scanKmerBanded d K t fci th i s"
    have f': "firstUnallocIndex ?s' ! th \<le> i + 1"
      using scanKmerBanded_mark_le[OF "1.prems"(1)] by (simp add: le_SucI)
    have same: "segment (allKmers ?s') (i + 1) e = segment (allKmers s) (i + 1) e"
      unfolding segment_def using scanKmerBanded_tail[OF "1.prems"] by simp
    have "clusters (scanLoopBanded d K t fci th e i s)
        = clusters (scanLoopBanded d K t fci th e (i + 1) ?s')"
      using True by (subst scanLoopBanded.simps) simp
    also have "\<dots> = foldl (assignKmer d K t fci) (clusters ?s') (segment (allKmers ?s') (i + 1) e)"
      by (rule "1.IH"[OF True f'])
    also have "\<dots> = foldl (assignKmer d K t fci) (clusters ?s') (segment (allKmers s) (i + 1) e)"
      by (simp only: same)
    also have "\<dots> = foldl (assignKmer d K t fci) (clusters s) (segment (allKmers s) i e)"
      using True by (simp add: scanKmerBanded_clusters segment_def upt_conv_Cons)
    finally show ?thesis .
  qed
qed

lemma scanLoopBanded_unassigned:
  "th < length (firstUnallocIndex s) \<Longrightarrow> firstUnallocIndex s ! th \<le> i \<Longrightarrow> i \<le> e \<Longrightarrow>
   e \<le> length (allKmers s) \<Longrightarrow>
   x \<in> set (segment (allKmers s) (firstUnallocIndex s ! th) i)
     \<or> (x \<in> set (segment (allKmers s) i e) \<and> fitsNone d K t fci (clusters s) x) \<Longrightarrow>
   x \<in> set (segment (allKmers (scanLoopBanded d K t fci th e i s))
              (firstUnallocIndex (scanLoopBanded d K t fci th e i s) ! th) e)"
proof (induction d K t fci th e i s rule: scanLoopBanded.induct)
  case (1 d K t fci th e i s)
  show ?case
  proof (cases "i < e")
    case False
    with "1.prems" have "i = e" by simp
    with "1.prems"(5) show ?thesis
      by (subst (1 2) scanLoopBanded.simps) (auto simp: in_segment_iff)
  next
    case True
    let ?s' = "scanKmerBanded d K t fci th i s"
    have il: "i < length (allKmers s)" using True "1.prems" by simp
    have th': "th < length (firstUnallocIndex ?s')" using "1.prems"(1) by simp
    have f': "firstUnallocIndex ?s' ! th \<le> i + 1"
      using scanKmerBanded_mark_le[OF "1.prems"(2)] by (simp add: le_SucI)
    have i': "i + 1 \<le> e" using True by simp
    have e': "e \<le> length (allKmers ?s')" using "1.prems" by simp
    have x': "x \<in> set (segment (allKmers ?s') (firstUnallocIndex ?s' ! th) (i + 1))
       \<or> (x \<in> set (segment (allKmers ?s') (i + 1) e) \<and> fitsNone d K t fci (clusters ?s') x)"
    proof -
      from "1.prems"(5) consider
        (pend) "x \<in> set (segment (allKmers s) (firstUnallocIndex s ! th) i)"
        | (here) "x = allKmers s ! i" "fitsNone d K t fci (clusters s) x"
        | (later) p where "i < p" "p < e" "x = allKmers s ! p"
            "fitsNone d K t fci (clusters s) x"
        unfolding in_segment_iff by (metis le_neq_implies_less)
      then show ?thesis
      proof cases
        case pend
        then show ?thesis using scanKmerBanded_pending[OF "1.prems"(1,2) il] by blast
      next
        case here
        then show ?thesis using scanKmerBanded_pending[OF "1.prems"(1,2) il] by blast
      next
        case later
        have "allKmers ?s' ! p = x"
          using scanKmerBanded_tail[OF "1.prems"(2) later(1)] later(3) by simp
        moreover have "fitsNone d K t fci (clusters ?s') x"
          using later(4) fitsNone_protos[of "clusters ?s'" "clusters s"] by simp
        ultimately show ?thesis using later(1,2) unfolding in_segment_iff
          by (intro disjI2 conjI exI[of _ p]) simp_all
      qed
    qed
    from "1.IH"[OF True th' f' i' e' x'] True show ?thesis
      by (subst (1 2) scanLoopBanded.simps) simp
  qed
qed

subsection \<open>The scans of all bands\<close>

lemma beginIdx_Suc: "beginIdx N n (Suc th) = endIdx N n th"
  by (simp add: beginIdx_def endIdx_def)

lemma beginIdx_mono: "th \<le> u \<Longrightarrow> beginIdx N n th \<le> beginIdx N n u"
  by (simp add: beginIdx_def div_le_mono)

lemma endIdx_le_beginIdx: "u < m \<Longrightarrow> endIdx N n u \<le> beginIdx N n m"
  using beginIdx_mono[of "Suc u" m N n] by (simp add: beginIdx_Suc)

lemma endIdx_le_N: "0 < n \<Longrightarrow> th < n \<Longrightarrow> endIdx N n th \<le> N"
proof -
  assume n: "0 < n" and th: "th < n"
  then have "th + 1 \<le> n" by simp
  then have "(th + 1) * N \<le> n * N" by (rule mult_le_mono1)
  then have "((th + 1) * N) div n \<le> (n * N) div n" by (rule div_le_mono)
  with n show ?thesis by (simp add: endIdx_def)
qed

lemma bandsOK_D:
  assumes "bandsOK n s" and "th < n"
  shows "beginIdx (length (allKmers s)) n th \<le> firstUnallocIndex s ! th"
    and "firstUnallocIndex s ! th \<le> endIdx (length (allKmers s)) n th"
    and "length (firstUnallocIndex s) = n" and "0 < n"
  using assms by (auto simp: bandsOK_def list_all_iff)

lemma segment_cong:
  "(\<And>p. a \<le> p \<Longrightarrow> p < b \<Longrightarrow> ks ! p = ks' ! p) \<Longrightarrow> segment ks a b = segment ks' a b"
  by (simp add: segment_def)

lemma threadsDone_0: "bandsOK n s \<Longrightarrow> threadsDone d K t fci n s 0 s"
  by (simp add: threadsDone_def bandsOK_def)

lemma threadsDone_Suc:
  assumes ok: "bandsOK n s" and m: "m < n" and IH: "threadsDone d K t fci n s m S"
  shows "threadsDone d K t fci n s (Suc m) (scanThread d K t fci n m S)"
proof -
  let ?N = "length (allKmers s)"
  let ?e = "endIdx ?N n m"
  let ?f = "firstUnallocIndex s"
  let ?S' = "scanThread d K t fci n m S"
  from IH have len: "length (allKmers S) = ?N" and flen: "length (firstUnallocIndex S) = n"
    and keep: "\<And>p. beginIdx ?N n m \<le> p \<Longrightarrow> allKmers S ! p = allKmers s ! p"
    and marks: "\<And>u. m \<le> u \<Longrightarrow> firstUnallocIndex S ! u = ?f ! u"
    and dn: "\<And>u. u < m \<Longrightarrow> ?f ! u \<le> firstUnallocIndex S ! u
                  \<and> firstUnallocIndex S ! u \<le> endIdx ?N n u"
    and cl: "clusters S = foldl (assignKmer d K t fci) (clusters s)
                        (concat (map (bandFrom n s) [0 ..< m]))"
    and un: "\<And>u x. u < m \<Longrightarrow> x \<in> set (bandFrom n s u) \<Longrightarrow> fitsNone d K t fci (clusters s) x
                \<Longrightarrow> x \<in> set (bandFrom n S u)"
    by (auto simp: threadsDone_def)
  have S': "?S' = scanLoopBanded d K t fci m ?e (?f ! m) S"
    using marks[of m] len by (simp add: scanThread_def)
  have fm: "firstUnallocIndex S ! m = ?f ! m" using marks[of m] by simp
  have fle: "firstUnallocIndex S ! m \<le> ?f ! m" using fm by simp
  have b: "beginIdx ?N n m \<le> ?f ! m" and fe: "?f ! m \<le> ?e"
    using bandsOK_D[OF ok m] by simp_all
  have eN: "?e \<le> ?N" using endIdx_le_N[OF bandsOK_D(4)[OF ok m] m] .
  have band: "segment (allKmers S) (?f ! m) ?e = bandFrom n s m"
    unfolding bandFrom_def using b keep by (intro segment_cong) simp
  have protos: "map prototype (clusters S) = map prototype (clusters s)"
    by (simp add: cl)
  have 1: "length (allKmers ?S') = ?N" by (simp add: S' len)
  have 2: "length (firstUnallocIndex ?S') = n" by (simp add: S' flen)
  have 3: "allKmers ?S' ! p = allKmers s ! p" if "beginIdx ?N n (Suc m) \<le> p" for p
  proof -
    from that have ep: "?e \<le> p" by (simp add: beginIdx_Suc)
    then have "beginIdx ?N n m \<le> p" using b fe by simp
    with scanLoopBanded_outside[OF fle, of p ?e d K t fci] ep keep show ?thesis
      by (simp add: S')
  qed
  have 4: "firstUnallocIndex ?S' ! u = ?f ! u" if "Suc m \<le> u" for u
    using that marks[of u] by (simp add: S' scanLoopBanded_mark_other)
  have 5: "?f ! u \<le> firstUnallocIndex ?S' ! u \<and> firstUnallocIndex ?S' ! u \<le> endIdx ?N n u"
    if "u < Suc m" for u
  proof (cases "u = m")
    case True
    have "?f ! m \<le> firstUnallocIndex ?S' ! m"
      using scanLoopBanded_mark_ge[of S m d K t fci ?e "?f ! m"] fm by (simp add: S')
    moreover have "firstUnallocIndex ?S' ! m \<le> ?e"
      using scanLoopBanded_mark_le[OF fle fe] by (simp add: S')
    ultimately show ?thesis using True by simp
  next
    case False
    with that have "u < m" by simp
    with dn[of u] False show ?thesis by (simp add: S' scanLoopBanded_mark_other)
  qed
  have 6: "clusters ?S' = foldl (assignKmer d K t fci) (clusters s)
                        (concat (map (bandFrom n s) [0 ..< Suc m]))"
    using scanLoopBanded_clusters[OF fle, of d K t fci ?e] by (simp add: S' cl band)
  have 7: "x \<in> set (bandFrom n ?S' u)"
    if u: "u < Suc m" and x: "x \<in> set (bandFrom n s u)"
      and none: "fitsNone d K t fci (clusters s) x" for u x
  proof (cases "u = m")
    case True
    have "x \<in> set (segment (allKmers S) (?f ! m) ?e)" using x True band by simp
    moreover have "fitsNone d K t fci (clusters S) x"
      using none fitsNone_protos[OF protos] by simp
    ultimately have "x \<in> set (segment (allKmers ?S') (firstUnallocIndex ?S' ! m) ?e)"
      using scanLoopBanded_unassigned[of m S "?f ! m" ?e x d K t fci] m flen fm fe eN len
      by (simp add: S')
    then show ?thesis using True by (simp add: bandFrom_def 1)
  next
    case False
    with u have um: "u < m" by simp
    from un[OF um x none] obtain p where p: "firstUnallocIndex S ! u \<le> p"
      "p < endIdx ?N n u" "x = allKmers S ! p"
      by (auto simp: bandFrom_def in_segment_iff len)
    have "p < firstUnallocIndex S ! m"
      using p(2) endIdx_le_beginIdx[OF um, of ?N n] b fm by simp
    then have "allKmers ?S' ! p = allKmers S ! p"
      using scanLoopBanded_outside[OF fle, of p ?e d K t fci] fm by (simp add: S')
    moreover have "firstUnallocIndex ?S' ! u = firstUnallocIndex S ! u"
      using False by (simp add: S' scanLoopBanded_mark_other)
    ultimately show ?thesis using p unfolding bandFrom_def in_segment_iff 1
      by (intro exI[of _ p]) simp
  qed
  show ?thesis unfolding threadsDone_def using 1 2 3 4 5 6 7 by blast
qed

lemma threadsDone_upto:
  assumes ok: "bandsOK n s" and m: "m \<le> n"
  shows "threadsDone d K t fci n s m
           (foldl (\<lambda>s th. scanThread d K t fci n th s) s [0 ..< m])"
  using m
proof (induction m)
  case 0
  show ?case using threadsDone_0[OF ok] by simp
next
  case (Suc m)
  then have "m < n" and "threadsDone d K t fci n s m
           (foldl (\<lambda>s th. scanThread d K t fci n th s) s [0 ..< m])" by simp_all
  from threadsDone_Suc[OF ok this] show ?case by simp
qed

lemma scanPhaseBanded_done:
  "bandsOK n s \<Longrightarrow> threadsDone d K t fci n s n (scanPhaseBanded d K t fci n n s)"
  unfolding scanPhaseBanded_def by (rule threadsDone_upto) simp_all

lemma scanPhaseBanded_bandsOK:
  assumes "bandsOK n s"
  shows "bandsOK n (scanPhaseBanded d K t fci n n s)"
proof -
  from scanPhaseBanded_done[OF assms, of d K t fci]
  have len: "length (allKmers (scanPhaseBanded d K t fci n n s)) = length (allKmers s)"
    and flen: "length (firstUnallocIndex (scanPhaseBanded d K t fci n n s)) = n"
    and b: "\<And>u. u < n \<Longrightarrow> firstUnallocIndex s ! u
               \<le> firstUnallocIndex (scanPhaseBanded d K t fci n n s) ! u
             \<and> firstUnallocIndex (scanPhaseBanded d K t fci n n s) ! u
               \<le> endIdx (length (allKmers s)) n u"
    by (auto simp: threadsDone_def)
  have n: "0 < n" using assms by (simp add: bandsOK_def)
  have "beginIdx (length (allKmers s)) n u
          \<le> firstUnallocIndex (scanPhaseBanded d K t fci n n s) ! u
        \<and> firstUnallocIndex (scanPhaseBanded d K t fci n n s) ! u
          \<le> endIdx (length (allKmers s)) n u" if "u < n" for u
    using b[OF that] bandsOK_D(1)[OF assms that] by simp
  then show ?thesis unfolding bandsOK_def len list_all_iff using flen n by simp
qed

lemma scanPhase_members:
  "j < length (clusters s) \<Longrightarrow>
     kmers (clusters (scanPhase d K t fci s) ! j)
       = kmers (clusters s ! j)
         @ map (withDistanceTo d K (clusters s) j)
             (filter (\<lambda>k. firstFit d K t fci (clusters s) k j)
                (segment (allKmers s) (firstUnallocIndex s) (length (allKmers s))))"
  by (simp add: scanPhase_def scanLoop_clusters foldl_assignKmer_members segment_def)

lemma scanPhaseBanded_members:
  "bandsOK n s \<Longrightarrow> j < length (clusters s) \<Longrightarrow>
     kmers (clusters (scanPhaseBanded d K t fci n n s) ! j)
       = kmers (clusters s ! j)
         @ map (withDistanceTo d K (clusters s) j)
             (filter (\<lambda>k. firstFit d K t fci (clusters s) k j) (scannedBanded n s))"
  using scanPhaseBanded_done[of n s d K t fci]
  by (simp add: threadsDone_def foldl_assignKmer_members scannedBanded_def)

subsection \<open>First fit\<close>

text \<open>
  The scan in index order, which is the scan on one thread. In the first overload (the
  k-mers from the high-water mark on) and in the banded overload (every band from its
  thread's mark on, with the marks inside their bands, the threads one after the other)
  the prototypes stay as they are and cluster \<open>j\<close> receives, in scan order, exactly the
  scanned k-mers whose first fit it is: \<open>j\<close> is the least index from
  \<^verbatim>\<open>firstClusterIndex\<close> below \<^verbatim>\<open>clusters.size()\<close> whose prototype is within the
  threshold. Each is appended with \<^verbatim>\<open>DistanceFromPrototype\<close> set to its distance to that
  prototype. A scanned k-mer that no cluster fits is appended nowhere and is still in the
  unassigned range after the scan.
\<close>

theorem scan_in_index_order_is_first_fit:
  "map prototype (clusters (scanPhase d K t fci s)) = map prototype (clusters s)
   \<and> (\<forall>j<length (clusters s).
        kmers (clusters (scanPhase d K t fci s) ! j)
          = kmers (clusters s ! j)
            @ map (withDistanceTo d K (clusters s) j)
                (filter (\<lambda>k. firstFit d K t fci (clusters s) k j)
                   (segment (allKmers s) (firstUnallocIndex s) (length (allKmers s)))))
   \<and> (firstUnallocIndex s \<le> length (allKmers s) \<longrightarrow>
        (\<forall>x \<in> set (segment (allKmers s) (firstUnallocIndex s) (length (allKmers s))).
           fitsNone d K t fci (clusters s) x \<longrightarrow>
           x \<in> set (segment (allKmers (scanPhase d K t fci s))
                      (firstUnallocIndex (scanPhase d K t fci s))
                      (length (allKmers (scanPhase d K t fci s))))))
   \<and> (bandsOK n b \<longrightarrow>
        map prototype (clusters (scanPhaseBanded d K t fci n n b)) = map prototype (clusters b)
        \<and> (\<forall>j<length (clusters b).
             kmers (clusters (scanPhaseBanded d K t fci n n b) ! j)
               = kmers (clusters b ! j)
                 @ map (withDistanceTo d K (clusters b) j)
                     (filter (\<lambda>k. firstFit d K t fci (clusters b) k j) (scannedBanded n b)))
        \<and> (\<forall>th<n. \<forall>x \<in> set (bandFrom n b th).
             fitsNone d K t fci (clusters b) x \<longrightarrow>
             x \<in> set (bandFrom n (scanPhaseBanded d K t fci n n b) th)))"
proof (intro conjI allI impI ballI)
  show "map prototype (clusters (scanPhase d K t fci s)) = map prototype (clusters s)"
    by (simp add: scanPhase_def scanLoop_clusters)
next
  fix j assume "j < length (clusters s)"
  then show "kmers (clusters (scanPhase d K t fci s) ! j)
          = kmers (clusters s ! j)
            @ map (withDistanceTo d K (clusters s) j)
                (filter (\<lambda>k. firstFit d K t fci (clusters s) k j)
                   (segment (allKmers s) (firstUnallocIndex s) (length (allKmers s))))"
    by (rule scanPhase_members)
next
  fix x
  assume "firstUnallocIndex s \<le> length (allKmers s)"
    and "x \<in> set (segment (allKmers s) (firstUnallocIndex s) (length (allKmers s)))"
    and "fitsNone d K t fci (clusters s) x"
  then show "x \<in> set (segment (allKmers (scanPhase d K t fci s))
                      (firstUnallocIndex (scanPhase d K t fci s))
                      (length (allKmers (scanPhase d K t fci s))))"
    using scanLoop_unassigned[of s "firstUnallocIndex s" x d K t fci]
    by (simp add: scanPhase_def)
next
  assume "bandsOK n b"
  from scanPhaseBanded_done[OF this, of d K t fci]
  show "map prototype (clusters (scanPhaseBanded d K t fci n n b)) = map prototype (clusters b)"
    by (simp add: threadsDone_def)
next
  fix j assume "bandsOK n b" "j < length (clusters b)"
  then show "kmers (clusters (scanPhaseBanded d K t fci n n b) ! j)
               = kmers (clusters b ! j)
                 @ map (withDistanceTo d K (clusters b) j)
                     (filter (\<lambda>k. firstFit d K t fci (clusters b) k j) (scannedBanded n b))"
    by (rule scanPhaseBanded_members)
next
  fix th x
  assume "bandsOK n b" "th < n" "x \<in> set (bandFrom n b th)" "fitsNone d K t fci (clusters b) x"
  with scanPhaseBanded_done[of n b d K t fci]
  show "x \<in> set (bandFrom n (scanPhaseBanded d K t fci n n b) th)"
    by (simp add: threadsDone_def)
qed

theorem scan_in_index_order_example:
  "kmers (clusters (scanPhase exDist 1 1 0
       \<lparr>clusters = [newKmerCluster (exKmer ''a'' 1) 0],
        allKmers = [exKmer ''a'' 1, exKmer ''c'' 2], firstUnallocIndex = 0\<rparr>) ! 0)
     = [(exKmer ''a'' 1)\<lparr>distanceFromPrototype := 0\<rparr>]
   \<and> exKmer ''c'' 2 \<in> set (segment
       (allKmers (scanPhase exDist 1 1 0
          \<lparr>clusters = [newKmerCluster (exKmer ''a'' 1) 0],
           allKmers = [exKmer ''a'' 1, exKmer ''c'' 2], firstUnallocIndex = 0\<rparr>))
       (firstUnallocIndex (scanPhase exDist 1 1 0
          \<lparr>clusters = [newKmerCluster (exKmer ''a'' 1) 0],
           allKmers = [exKmer ''a'' 1, exKmer ''c'' 2], firstUnallocIndex = 0\<rparr>))
       (length (allKmers (scanPhase exDist 1 1 0
          \<lparr>clusters = [newKmerCluster (exKmer ''a'' 1) 0],
           allKmers = [exKmer ''a'' 1, exKmer ''c'' 2], firstUnallocIndex = 0\<rparr>))))
   \<and> bandsOK 1 \<lparr>clusters = [newKmerCluster (exKmer ''a'' 1) 0],
        allKmers = [exKmer ''a'' 1, exKmer ''c'' 2], firstUnallocIndex = [0]\<rparr>
   \<and> kmers (clusters (scanPhaseBanded exDist 1 1 0 1 1
       \<lparr>clusters = [newKmerCluster (exKmer ''a'' 1) 0],
        allKmers = [exKmer ''a'' 1, exKmer ''c'' 2], firstUnallocIndex = [0]\<rparr>) ! 0)
     = [(exKmer ''a'' 1)\<lparr>distanceFromPrototype := 0\<rparr>]
   \<and> exKmer ''c'' 2 \<in> set (bandFrom 1 (scanPhaseBanded exDist 1 1 0 1 1
       \<lparr>clusters = [newKmerCluster (exKmer ''a'' 1) 0],
        allKmers = [exKmer ''a'' 1, exKmer ''c'' 2], firstUnallocIndex = [0]\<rparr>) 0)"
proof -
  let ?s = "\<lparr>clusters = [newKmerCluster (exKmer ''a'' 1) 0],
        allKmers = [exKmer ''a'' 1, exKmer ''c'' 2], firstUnallocIndex = 0 :: nat\<rparr>"
  let ?b = "\<lparr>clusters = [newKmerCluster (exKmer ''a'' 1) 0],
        allKmers = [exKmer ''a'' 1, exKmer ''c'' 2], firstUnallocIndex = [0 :: nat]\<rparr>"
  have ok: "bandsOK 1 ?b" by (simp add: bandsOK_def beginIdx_def endIdx_def)
  have seg: "segment [exKmer ''a'' 1, exKmer ''c'' 2] 0 2 = [exKmer ''a'' 1, exKmer ''c'' 2]"
    by (simp add: segment_def upt_rec)
  have seg': "segment [exKmer ''a'' 1, exKmer ''c'' 2] 0 (Suc (Suc 0))
      = [exKmer ''a'' 1, exKmer ''c'' 2]"
    by (simp add: segment_def upt_rec)
  have band: "bandFrom 1 ?b 0 = [exKmer ''a'' 1, exKmer ''c'' 2]"
    by (simp add: bandFrom_def endIdx_def seg')
  have band': "bandFrom (Suc 0) ?b 0 = [exKmer ''a'' 1, exKmer ''c'' 2]"
    using band by simp
  have sc: "scannedBanded 1 ?b = [exKmer ''a'' 1, exKmer ''c'' 2]"
    by (simp add: scannedBanded_def band')
  have sc': "scannedBanded (Suc 0) ?b = [exKmer ''a'' 1, exKmer ''c'' 2]"
    using sc by simp
  have fa: "firstFit exDist (Suc 0) 1 0 [newKmerCluster (exKmer ''a'' 1) 0] (exKmer ''a'' 1) 0"
    by (simp add: firstFit_def fits_def exDist_def exKmer_def newKmerCluster_def)
  have fc: "\<not> firstFit exDist (Suc 0) 1 0 [newKmerCluster (exKmer ''a'' 1) 0]
      (exKmer ''c'' 2) 0"
    by (simp add: firstFit_def fits_def exDist_def exKmer_def newKmerCluster_def)
  have nc: "fitsNone exDist (Suc 0) 1 0 [newKmerCluster (exKmer ''a'' 1) 0] (exKmer ''c'' 2)"
    by (simp add: fitsNone_def fits_def exDist_def exKmer_def newKmerCluster_def)
  have wd: "withDistanceTo exDist (Suc 0) [newKmerCluster (exKmer ''a'' 1) 0] 0
      (exKmer ''a'' 1) = (exKmer ''a'' 1)\<lparr>distanceFromPrototype := 0\<rparr>"
    by (simp add: withDistanceTo_def exDist_def exKmer_def newKmerCluster_def)
  have k0: "kmers (newKmerCluster (exKmer ''a'' 1) 0) = []"
    by (simp add: newKmerCluster_def)
  note T = scan_in_index_order_is_first_fit[where d = exDist and K = 1 and t = 1 and fci = 0
      and s = ?s and n = 1 and b = ?b]
  from T ok show ?thesis
    by (simp add: seg seg' band band' sc sc' fa fc nc wd k0)
qed

text \<open>
  Claim C3 (every scan phase of \<^verbatim>\<open>DoIncrementalClusteringParallel\<close> gives each unassigned
  k-mer to the first cluster that fits it, and leaves it unassigned when none fits) fails
  in the first overload when the \<^verbatim>\<open>parallel for\<close> runs on more than one thread. Take one
  cluster, seeded from the k-mer a, the threshold 5 and the unassigned k-mers a and b, both
  within the threshold of the prototype (at distances 0 and 5). With two threads the
  iteration for index 1 can run before the iteration for index 0. It appends b and, since
  \<open>1 > firstUnallocIndex = 0\<close>, swaps b to index 0. The iteration for index 0 then reads
  \<^verbatim>\<open>kmers[0]\<close>, which is b, and appends b again. The scan ends with b twice in the
  cluster and the mark at 2, so that a, which the cluster fits, is in no cluster and no
  longer in the unassigned range. In index order the same scan appends a and then b.
\<close>

theorem scan_on_two_threads_is_not_first_fit:
  "map substring (kmers (clusters (scanInterleaved exDist 1 5 0 [1, 0]
       \<lparr>clusters = [newKmerCluster (exKmer ''a'' 1) 0],
        allKmers = [exKmer ''a'' 1, exKmer ''b'' 2], firstUnallocIndex = 0\<rparr>) ! 0))
     = [''b'', ''b'']
   \<and> map substring (allKmers (scanInterleaved exDist 1 5 0 [1, 0]
       \<lparr>clusters = [newKmerCluster (exKmer ''a'' 1) 0],
        allKmers = [exKmer ''a'' 1, exKmer ''b'' 2], firstUnallocIndex = 0\<rparr>))
     = [''b'', ''a'']
   \<and> firstUnallocIndex (scanInterleaved exDist 1 5 0 [1, 0]
       \<lparr>clusters = [newKmerCluster (exKmer ''a'' 1) 0],
        allKmers = [exKmer ''a'' 1, exKmer ''b'' 2], firstUnallocIndex = 0\<rparr>) = 2
   \<and> findAttractor exDist 1 5 [newKmerCluster (exKmer ''a'' 1) 0]
        (encoding (exKmer ''a'' 1)) 0 = Some (0, 0)
   \<and> findAttractor exDist 1 5 [newKmerCluster (exKmer ''a'' 1) 0]
        (encoding (exKmer ''b'' 2)) 0 = Some (0, 5)
   \<and> map substring (kmers (clusters (scanPhase exDist 1 5 0
       \<lparr>clusters = [newKmerCluster (exKmer ''a'' 1) 0],
        allKmers = [exKmer ''a'' 1, exKmer ''b'' 2], firstUnallocIndex = 0\<rparr>) ! 0))
     = [''a'', ''b'']"
  by code_simp

subsection \<open>Bounds and the pass loop\<close>

lemma filterLoop_length [simp]:
  "length (allKmers (filterLoop d w t N i s)) = length (allKmers s)"
proof (induction d w t N i s rule: filterLoop.induct)
  case (1 d w t N i s)
  show ?case
  proof (cases "i < N")
    case True
    with "1.IH"[OF True refl refl refl refl] show ?thesis
      by (subst filterLoop.simps) (simp add: Let_def)
  next
    case False
    then show ?thesis by (subst filterLoop.simps) simp
  qed
qed

lemma filterLoop_first_le:
  "firstUnallocIndex s \<le> i \<Longrightarrow> firstUnallocIndex s \<le> N \<Longrightarrow>
     firstUnallocIndex (filterLoop d w t N i s) \<le> N"
proof (induction d w t N i s rule: filterLoop.induct)
  case (1 d w t N i s)
  show ?case
  proof (cases "i < N")
    case False
    with "1.prems" show ?thesis by (subst filterLoop.simps) simp
  next
    case True
    let ?s' = "if real (unat (d (encoding (allKmers s ! i)) (encoding (allKmers s ! i)) w)) > t
               then (if i > firstUnallocIndex s
                     then s\<lparr>allKmers := swap i (firstUnallocIndex s) (allKmers s),
                            firstUnallocIndex := firstUnallocIndex s + 1\<rparr>
                     else s)
               else s"
    have a: "firstUnallocIndex ?s' \<le> i + 1 + 1" using "1.prems" by simp
    have b: "firstUnallocIndex ?s' \<le> N" using "1.prems" True by simp
    from "1.IH"[OF True refl refl refl refl a b] True show ?thesis
      by (subst filterLoop.simps) (simp add: Let_def)
  qed
qed

lemma shuffleLoop_length [simp]:
  "length (fst (shuffleLoop b e i ks rand)) = length ks"
proof (induction b e i ks rand rule: shuffleLoop.induct)
  case (1 b e i ks rand)
  show ?case
  proof (cases "i < e")
    case True
    obtain r rand' where nr: "nextRand rand = (r, rand')" by (cases "nextRand rand")
    from "1.IH"[OF True refl nr[symmetric] refl] True show ?thesis
      by (subst shuffleLoop.simps) (simp add: nr Let_def)
  next
    case False
    then show ?thesis by (subst shuffleLoop.simps) simp
  qed
qed

lemma setupPhase_length [simp]:
  "length (allKmers (setupPhase kmerIndex w t d rand cs)) = length kmerIndex"
proof -
  let ?s1 = "filterLoop d w t (length kmerIndex) 0
               \<lparr>clusters = cs, allKmers = kmerIndex, firstUnallocIndex = 0\<rparr>"
  obtain ks rand' where sh: "shuffleLoop (firstUnallocIndex ?s1) (length kmerIndex)
           (firstUnallocIndex ?s1) (allKmers ?s1) rand = (ks, rand')"
    by (cases "shuffleLoop (firstUnallocIndex ?s1) (length kmerIndex)
           (firstUnallocIndex ?s1) (allKmers ?s1) rand")
  have "length (fst (shuffleLoop (firstUnallocIndex ?s1) (length kmerIndex)
           (firstUnallocIndex ?s1) (allKmers ?s1) rand)) = length kmerIndex"
    by simp
  then have "length ks = length kmerIndex" by (simp add: sh)
  then show ?thesis by (simp add: setupPhase_def Let_def sh)
qed

lemma setupPhase_first_le:
  "firstUnallocIndex (setupPhase kmerIndex w t d rand cs) \<le> length kmerIndex"
  using filterLoop_first_le[of "\<lparr>clusters = cs, allKmers = kmerIndex, firstUnallocIndex = 0\<rparr>"
      0 "length kmerIndex" d w t]
  by (simp add: setupPhase_def Let_def split: prod.splits)

lemma seedClusters_allKmers [simp]: "allKmers (seedClusters c r s) = allKmers s"
  by (simp add: seedClusters_def Let_def)

lemma DICP_length:
  "DoIncrementalClusteringParallel K t d r f c s = Inr s' \<Longrightarrow>
     length (allKmers s') = length (allKmers s)"
  by (auto simp: DoIncrementalClusteringParallel_def scanPhase_def Let_def split: if_splits)

lemma DICP_first_le:
  "DoIncrementalClusteringParallel K t d r f c s = Inr s' \<Longrightarrow>
     firstUnallocIndex s \<le> length (allKmers s) \<Longrightarrow>
     firstUnallocIndex s' \<le> length (allKmers s)"
  using scanLoop_first_le[of s "firstUnallocIndex s" d K t f]
    scanLoop_first_le[of "seedClusters c r s" "firstUnallocIndex s" d K t f]
  by (auto simp: DoIncrementalClusteringParallel_def scanPhase_def Let_def split: if_splits)

lemma DICP_error:
  "DoIncrementalClusteringParallel K t d r f c s = Inl (e, s') \<Longrightarrow>
     s' = s \<and> clusters s = [] \<and> r = 0
     \<and> e = Exception ''clusters.size() == 0 && requestedClusterCount == 0''"
  by (auto simp: DoIncrementalClusteringParallel_def Let_def split: if_splits)


lemma scanKmer_clusters_length [simp]:
  "length (clusters (scanKmer d K t fci i s)) = length (clusters s)"
  by (simp add: scanKmer_clusters)

lemma scanLoop_clusters_length [simp]:
  "length (clusters (scanLoop d K t fci i s)) = length (clusters s)"
proof (induction d K t fci i s rule: scanLoop.induct)
  case (1 d K t fci i s)
  then show ?case by (subst scanLoop.simps) simp
qed

lemma DICP_clusters_length:
  "DoIncrementalClusteringParallel K t d r f c s = Inr s' \<Longrightarrow>
     length (clusters s')
       = length (clusters s) + min r (length (allKmers s) - firstUnallocIndex s)"
  by (auto simp: DoIncrementalClusteringParallel_def scanPhase_def seedClusters_def Let_def
      split: if_splits)

lemma DICP_clusters_ne:
  assumes "DoIncrementalClusteringParallel K t d r f c s = Inr s'" and "clusters s \<noteq> []"
  shows "clusters s' \<noteq> []"
proof -
  from assms(2) have "0 < length (clusters s)" by simp
  with DICP_clusters_length[OF assms(1)] have "0 < length (clusters s')" by simp
  then show ?thesis by auto
qed

lemma DICP_seeded_ne:
  assumes "DoIncrementalClusteringParallel K t d r f c s = Inr s'"
    and "firstUnallocIndex s < length (allKmers s)" and "0 < r"
  shows "clusters s' \<noteq> []"
proof -
  from assms(2,3) have "0 < min r (length (allKmers s) - firstUnallocIndex s)" by simp
  with DICP_clusters_length[OF assms(1)] have "0 < length (clusters s')" by simp
  then show ?thesis by auto
qed

text \<open>The schedules of the scan: the count under any order of the iterations.\<close>

lemma scanKmer_first_step:
  "firstUnallocIndex (scanKmer d K t f i s) \<le> firstUnallocIndex s + 1"
  by (simp add: scanKmer_def Let_def split: option.splits)

lemma scanInterleaved_first:
  "firstUnallocIndex s \<le> firstUnallocIndex (scanInterleaved d K t f order s)
   \<and> firstUnallocIndex (scanInterleaved d K t f order s) \<le> firstUnallocIndex s + length order"
proof (induction order arbitrary: s)
  case Nil
  show ?case by (simp add: scanInterleaved_def)
next
  case (Cons i order)
  have unf: "scanInterleaved d K t f (i # order) s
      = scanInterleaved d K t f order (scanKmer d K t f i s)"
    by (simp add: scanInterleaved_def)
  from Cons[of "scanKmer d K t f i s"] scanKmer_first_mono[of s d K t f i]
    scanKmer_first_step[of d K t f i s]
  show ?case unfolding unf by simp
qed

lemma scanLoop_interleaved:
  "scanLoop d K t f i s = scanInterleaved d K t f [i ..< length (allKmers s)] s"
proof (induction d K t f i s rule: scanLoop.induct)
  case (1 d K t f i s)
  show ?case
  proof (cases "i < length (allKmers s)")
    case True
    from "1.IH"[OF True] True show ?thesis
      by (subst scanLoop.simps) (simp add: scanInterleaved_def upt_conv_Cons)
  next
    case False
    then show ?thesis by (subst scanLoop.simps) (simp add: scanInterleaved_def)
  qed
qed

lemma scanPhase_interleaved:
  "scanPhase d K t f s
     = scanInterleaved d K t f [firstUnallocIndex s ..< length (allKmers s)] s"
  by (simp add: scanPhase_def scanLoop_interleaved)

text \<open>The course of the pass loop.\<close>

lemma passLoop_course:
  "length (allKmers s) = N \<Longrightarrow> firstUnallocIndex s \<le> N \<Longrightarrow>
     length (allKmers (finalState (passLoop w t d ci cp N fci inc s))) = N
     \<and> firstUnallocIndex s \<le> firstUnallocIndex (finalState (passLoop w t d ci cp N fci inc s))
     \<and> firstUnallocIndex (finalState (passLoop w t d ci cp N fci inc s)) \<le> N
     \<and> (\<exists>p h. p \<le> N - firstUnallocIndex s
           \<and> passesWithProgress w t d ci cp N p (fci, inc, s) = Some h
           \<and> leavesAt w t d cp N h (passLoop w t d ci cp N fci inc s))
     \<and> (\<forall>e s'. passLoop w t d ci cp N fci inc s = Inl (e, s') \<longrightarrow> clusters s' = []
           \<and> e = Exception ''clusters.size() == 0 && requestedClusterCount == 0'')"
proof (induction w t d ci cp N fci inc s rule: passLoop.induct)
  case (1 w t d ci cp N fci inc s)
  show ?case
  proof (cases "firstUnallocIndex s < N")
    case False
    then have unf: "passLoop w t d ci cp N fci inc s = Inr s"
      by (subst passLoop.simps) simp
    have "passesWithProgress w t d ci cp N 0 (fci, inc, s) = Some (fci, inc, s)
        \<and> leavesAt w t d cp N (fci, inc, s) (Inr s)"
      using False by (simp add: leavesAt_def)
    then have "\<exists>p h. p \<le> N - firstUnallocIndex s
           \<and> passesWithProgress w t d ci cp N p (fci, inc, s) = Some h
           \<and> leavesAt w t d cp N h (Inr s)"
      by (intro exI[of _ 0] exI[of _ "(fci, inc, s)"]) simp
    with False "1.prems" show ?thesis unfolding unf by simp
  next
    case True
    show ?thesis
    proof (cases "DoIncrementalClusteringParallel w t d inc fci cp s")
      case (Inl a)
      obtain e s' where a: "a = (e, s')" by (cases a)
      have unf: "passLoop w t d ci cp N fci inc s = Inl (e, s')"
        using True Inl a by (subst passLoop.simps) simp
      have "passesWithProgress w t d ci cp N 0 (fci, inc, s) = Some (fci, inc, s)
          \<and> leavesAt w t d cp N (fci, inc, s) (Inl (e, s'))"
        using True Inl a by (simp add: leavesAt_def)
      then have "\<exists>p h. p \<le> N - firstUnallocIndex s
           \<and> passesWithProgress w t d ci cp N p (fci, inc, s) = Some h
           \<and> leavesAt w t d cp N h (Inl (e, s'))"
        by (intro exI[of _ 0] exI[of _ "(fci, inc, s)"]) simp
      with DICP_error[OF Inl[unfolded a]] "1.prems" show ?thesis unfolding unf by simp
    next
      case (Inr s')
      have len': "length (allKmers s') = N" using DICP_length[OF Inr] "1.prems" by simp
      have mono: "firstUnallocIndex s \<le> firstUnallocIndex s'" by (rule DICP_first_mono[OF Inr])
      have le': "firstUnallocIndex s' \<le> N" using DICP_first_le[OF Inr] "1.prems" by simp
      show ?thesis
      proof (cases "firstUnallocIndex s' = firstUnallocIndex s")
        case same: True
        have unf: "passLoop w t d ci cp N fci inc s = Inr s'"
          using True Inr same by (subst passLoop.simps) simp
        have "passesWithProgress w t d ci cp N 0 (fci, inc, s) = Some (fci, inc, s)
            \<and> leavesAt w t d cp N (fci, inc, s) (Inr s')"
          using True Inr same by (simp add: leavesAt_def)
        then have "\<exists>p h. p \<le> N - firstUnallocIndex s
             \<and> passesWithProgress w t d ci cp N p (fci, inc, s) = Some h
             \<and> leavesAt w t d cp N h (Inr s')"
          by (intro exI[of _ 0] exI[of _ "(fci, inc, s)"]) simp
        with same len' le' show ?thesis unfolding unf by simp
      next
        case moved: False
        have unf: "passLoop w t d ci cp N fci inc s
            = passLoop w t d ci cp N (length (clusters s')) ci s'"
          using True Inr moved by (subst passLoop.simps) simp
        note IH = "1.IH"[OF True refl Inr moved len' le']
        let ?r = "passLoop w t d ci cp N (length (clusters s')) ci s'"
        from IH have a: "length (allKmers (finalState ?r)) = N" by (rule conjunct1)
        from IH have b: "firstUnallocIndex s' \<le> firstUnallocIndex (finalState ?r)"
          by (rule conjunct2[THEN conjunct1])
        from IH have c: "firstUnallocIndex (finalState ?r) \<le> N"
          by (rule conjunct2[THEN conjunct2, THEN conjunct1])
        from IH obtain p h where p: "p \<le> N - firstUnallocIndex s'"
          and ph: "passesWithProgress w t d ci cp N p (length (clusters s'), ci, s') = Some h"
          and lv: "leavesAt w t d cp N h ?r"
          by blast
        from IH have e: "\<forall>e s'. ?r = Inl (e, s') \<longrightarrow> clusters s' = []
           \<and> e = Exception ''clusters.size() == 0 && requestedClusterCount == 0''"
          by (rule conjunct2[THEN conjunct2, THEN conjunct2, THEN conjunct2])
        have lt: "firstUnallocIndex s < firstUnallocIndex s'" using mono moved by simp
        have p': "Suc p \<le> N - firstUnallocIndex s" using p lt le' by simp
        have step: "passesWithProgress w t d ci cp N (Suc p) (fci, inc, s) = Some h"
          using True Inr moved ph by simp
        have d: "\<exists>p h. p \<le> N - firstUnallocIndex s
             \<and> passesWithProgress w t d ci cp N p (fci, inc, s) = Some h
             \<and> leavesAt w t d cp N h ?r"
          using p' step lv by blast
        show ?thesis unfolding unf
          by (intro conjI) (fact a, rule order_trans[OF mono b], fact c, fact d, fact e)
      qed
    qed
  qed
qed

lemma passLoop_normal:
  "clusters s \<noteq> [] \<or> (0 < inc \<and> 0 < ci) \<Longrightarrow> length (allKmers s) = N \<Longrightarrow>
     \<exists>s'. passLoop w t d ci cp N fci inc s = Inr s'"
proof (induction w t d ci cp N fci inc s rule: passLoop.induct)
  case (1 w t d ci cp N fci inc s)
  show ?case
  proof (cases "firstUnallocIndex s < N")
    case False
    then show ?thesis by (subst passLoop.simps) simp
  next
    case True
    from "1.prems"(1) obtain s' where r: "DoIncrementalClusteringParallel w t d inc fci cp s = Inr s'"
      by (auto simp: DoIncrementalClusteringParallel_def Let_def)
    show ?thesis
    proof (cases "firstUnallocIndex s' = firstUnallocIndex s")
      case same: True
      with True r show ?thesis by (subst passLoop.simps) simp
    next
      case moved: False
      have ne: "clusters s' \<noteq> [] \<or> (0 < ci \<and> 0 < ci)"
      proof (cases "clusters s = []")
        case False
        with DICP_clusters_ne[OF r] show ?thesis by simp
      next
        case True
        with "1.prems"(1) show ?thesis by simp
      qed
      have len': "length (allKmers s') = N" using DICP_length[OF r] "1.prems"(2) by simp
      from "1.IH"[OF True refl r moved ne len'] True r moved
      show ?thesis by (subst passLoop.simps) simp
    qed
  qed
qed

lemma passLoop_terminates: "passLoop_dom (w, t, d, ci, cp, N, fci, inc, s)"
proof (induction "N - firstUnallocIndex s" arbitrary: s fci inc rule: less_induct)
  case less
  show ?case
  proof (rule passLoop.domintros)
    fix s'
    assume lt: "firstUnallocIndex s < N"
      and r: "DoIncrementalClusteringParallel w t d inc fci cp s = Inr s'"
      and ne: "firstUnallocIndex s' \<noteq> firstUnallocIndex s"
    from DICP_first_mono[OF r] ne have "firstUnallocIndex s < firstUnallocIndex s'" by simp
    with lt have "N - firstUnallocIndex s' < N - firstUnallocIndex s" by simp
    then show "passLoop_dom (w, t, d, ci, cp, N, length (clusters s'), ci, s')"
      by (rule less)
  qed
qed

lemma filterLoopBanded_length [simp]:
  "length (allKmers (filterLoopBanded d w t th e i s)) = length (allKmers s)"
proof (induction d w t th e i s rule: filterLoopBanded.induct)
  case (1 d w t th e i s)
  show ?case
  proof (cases "i < e")
    case True
    with "1.IH"[OF True refl refl refl refl refl] show ?thesis
      by (subst filterLoopBanded.simps) (simp add: Let_def)
  next
    case False
    then show ?thesis by (subst filterLoopBanded.simps) simp
  qed
qed

lemma filterLoopBanded_marks_length [simp]:
  "length (firstUnallocIndex (filterLoopBanded d w t th e i s)) = length (firstUnallocIndex s)"
proof (induction d w t th e i s rule: filterLoopBanded.induct)
  case (1 d w t th e i s)
  show ?case
  proof (cases "i < e")
    case True
    with "1.IH"[OF True refl refl refl refl refl] show ?thesis
      by (subst filterLoopBanded.simps) (simp add: Let_def)
  next
    case False
    then show ?thesis by (subst filterLoopBanded.simps) simp
  qed
qed

lemma filterLoopBanded_mark_other:
  "u \<noteq> th \<Longrightarrow>
     firstUnallocIndex (filterLoopBanded d w t th e i s) ! u = firstUnallocIndex s ! u"
proof (induction d w t th e i s rule: filterLoopBanded.induct)
  case (1 d w t th e i s)
  show ?case
  proof (cases "i < e")
    case True
    with "1.IH"[OF True refl refl refl refl refl "1.prems"] "1.prems" show ?thesis
      by (subst filterLoopBanded.simps) (simp add: Let_def)
  next
    case False
    then show ?thesis by (subst filterLoopBanded.simps) simp
  qed
qed

lemma filterLoopBanded_mark_bounds:
  "th < length (firstUnallocIndex s) \<Longrightarrow> firstUnallocIndex s ! th \<le> i \<Longrightarrow> i \<le> e \<Longrightarrow>
     firstUnallocIndex s ! th \<le> firstUnallocIndex (filterLoopBanded d w t th e i s) ! th
     \<and> firstUnallocIndex (filterLoopBanded d w t th e i s) ! th \<le> e"
proof (induction d w t th e i s rule: filterLoopBanded.induct)
  case (1 d w t th e i s)
  show ?case
  proof (cases "i < e")
    case False
    with "1.prems" show ?thesis by (subst (1 2) filterLoopBanded.simps) simp
  next
    case True
    let ?f = "firstUnallocIndex s ! th"
    let ?s' = "if real (unat (d (encoding (allKmers s ! i)) (encoding (allKmers s ! i)) w)) > t
               then (if i > ?f
                     then s\<lparr>allKmers := swap i ?f (allKmers s),
                            firstUnallocIndex := (firstUnallocIndex s)[th := ?f + 1]\<rparr>
                     else s)
               else s"
    have unf: "filterLoopBanded d w t th e i s = filterLoopBanded d w t th e (i + 1) ?s'"
      using True by (subst filterLoopBanded.simps) (simp add: Let_def)
    have th': "th < length (firstUnallocIndex ?s')" using "1.prems" by simp
    have a: "firstUnallocIndex ?s' ! th \<le> i + 1" using "1.prems" by simp
    have b: "i + 1 \<le> e" using True by simp
    have c: "?f \<le> firstUnallocIndex ?s' ! th" using "1.prems" by simp
    note IH = "1.IH"[OF True refl refl refl refl refl th' a b]
    from IH c show ?thesis unfolding unf by (meson order_trans)
  qed
qed

lemma setupThread_facts:
  assumes th: "th < length (firstUnallocIndex s)"
    and be: "beginIdx (length (allKmers s)) n th \<le> endIdx (length (allKmers s)) n th"
  shows "length (allKmers (fst (setupThread d w t n th (s, rand)))) = length (allKmers s)"
    and "length (firstUnallocIndex (fst (setupThread d w t n th (s, rand))))
           = length (firstUnallocIndex s)"
    and "\<And>u. u \<noteq> th \<Longrightarrow> firstUnallocIndex (fst (setupThread d w t n th (s, rand))) ! u
           = firstUnallocIndex s ! u"
    and "beginIdx (length (allKmers s)) n th
           \<le> firstUnallocIndex (fst (setupThread d w t n th (s, rand))) ! th"
    and "firstUnallocIndex (fst (setupThread d w t n th (s, rand))) ! th
           \<le> endIdx (length (allKmers s)) n th"
proof -
  let ?N = "length (allKmers s)"
  let ?b = "beginIdx ?N n th"
  let ?e = "endIdx ?N n th"
  let ?s1 = "s\<lparr>firstUnallocIndex := (firstUnallocIndex s)[th := ?b]\<rparr>"
  let ?s2 = "filterLoopBanded d w t th ?e ?b ?s1"
  let ?f = "firstUnallocIndex ?s2 ! th"
  obtain ks rand' where sh: "shuffleLoop ?f ?e ?f (allKmers ?s2) rand = (ks, rand')"
    by (cases "shuffleLoop ?f ?e ?f (allKmers ?s2) rand")
  have res: "fst (setupThread d w t n th (s, rand)) = ?s2\<lparr>allKmers := ks\<rparr>"
    by (simp add: setupThread_def Let_def sh)
  have "length (fst (shuffleLoop ?f ?e ?f (allKmers ?s2) rand)) = length (allKmers ?s2)"
    by (rule shuffleLoop_length)
  then have lks: "length ks = ?N" by (simp add: sh)
  show "length (allKmers (fst (setupThread d w t n th (s, rand)))) = length (allKmers s)"
    by (simp add: res lks)
  show "length (firstUnallocIndex (fst (setupThread d w t n th (s, rand))))
           = length (firstUnallocIndex s)"
    by (simp add: res)
  show "\<And>u. u \<noteq> th \<Longrightarrow> firstUnallocIndex (fst (setupThread d w t n th (s, rand))) ! u
           = firstUnallocIndex s ! u"
    by (simp add: res filterLoopBanded_mark_other)
  have th1: "th < length (firstUnallocIndex ?s1)" using th by simp
  have f1: "firstUnallocIndex ?s1 ! th \<le> ?b" using th by simp
  from filterLoopBanded_mark_bounds[OF th1 f1 be, where d = d and w = w and t = t] th
  show "beginIdx (length (allKmers s)) n th
           \<le> firstUnallocIndex (fst (setupThread d w t n th (s, rand))) ! th"
    and "firstUnallocIndex (fst (setupThread d w t n th (s, rand))) ! th
           \<le> endIdx (length (allKmers s)) n th"
    by (simp_all add: res)
qed

lemma beginIdx_le_endIdx: "beginIdx N n th \<le> endIdx N n th"
  by (simp add: beginIdx_def endIdx_def div_le_mono)

lemma setupThreads_upto:
  fixes d :: DistanceFunction and w :: nat and t :: real and rand :: UniformRealRandom
  assumes m: "m \<le> n" and len: "length (firstUnallocIndex s) = n"
  defines "S \<equiv> fst (foldl (\<lambda>sr th. setupThread d w t n th sr) (s, rand) [0 ..< m])"
  shows "length (allKmers S) = length (allKmers s)
     \<and> length (firstUnallocIndex S) = n
     \<and> (\<forall>u<m. beginIdx (length (allKmers s)) n u \<le> firstUnallocIndex S ! u
              \<and> firstUnallocIndex S ! u \<le> endIdx (length (allKmers s)) n u)"
  unfolding S_def using m
proof (induction m)
  case 0
  show ?case using len by simp
next
  case (Suc m)
  let ?sr = "foldl (\<lambda>sr th. setupThread d w t n th sr) (s, rand) [0 ..< m]"
  obtain S r where sr: "?sr = (S, r)" by (cases ?sr)
  from Suc have IH: "length (allKmers S) = length (allKmers s)"
    "length (firstUnallocIndex S) = n"
    "\<And>u. u < m \<Longrightarrow> beginIdx (length (allKmers s)) n u \<le> firstUnallocIndex S ! u
              \<and> firstUnallocIndex S ! u \<le> endIdx (length (allKmers s)) n u"
    by (simp_all add: sr)
  have th: "m < length (firstUnallocIndex S)" using Suc.prems IH(2) by simp
  have be: "beginIdx (length (allKmers S)) n m \<le> endIdx (length (allKmers S)) n m"
    by (rule beginIdx_le_endIdx)
  note F = setupThread_facts[OF th be, where d = d and w = w and t = t and rand = r]
  have step: "fst (foldl (\<lambda>sr th. setupThread d w t n th sr) (s, rand) [0 ..< Suc m])
       = fst (setupThread d w t n m (S, r))"
    by (simp add: sr)
  have "beginIdx (length (allKmers s)) n u
           \<le> firstUnallocIndex (fst (setupThread d w t n m (S, r))) ! u
        \<and> firstUnallocIndex (fst (setupThread d w t n m (S, r))) ! u
           \<le> endIdx (length (allKmers s)) n u" if "u < Suc m" for u
  proof (cases "u = m")
    case True
    with F(4,5) IH(1) show ?thesis by simp
  next
    case False
    with that have "u < m" by simp
    with IH(3)[of u] F(3)[of u] False show ?thesis by simp
  qed
  with F(1,2) IH(1,2) show ?case unfolding step by simp
qed

lemma setupPhaseBanded_bandsOK:
  "0 < n \<Longrightarrow> bandsOK n (setupPhaseBanded kmerIndex w t d rand cs n n)"
  using setupThreads_upto[where m = n and n = n and d = d and w = w and t = t and rand = rand
      and s = "\<lparr>clusters = cs, allKmers = kmerIndex, firstUnallocIndex = replicate n 0\<rparr>"]
  by (simp add: bandsOK_def setupPhaseBanded_def Let_def list_all_iff)

lemma setupPhaseBanded_length [simp]:
  "length (allKmers (setupPhaseBanded kmerIndex w t d rand cs n n)) = length kmerIndex"
  using setupThreads_upto[where m = n and n = n and d = d and w = w and t = t and rand = rand
      and s = "\<lparr>clusters = cs, allKmers = kmerIndex, firstUnallocIndex = replicate n 0\<rparr>"]
  by (simp add: setupPhaseBanded_def Let_def)

lemma seedClustersBanded_bandsOK [simp]:
  "bandsOK n (seedClustersBanded c r n s) = bandsOK n s"
  by (simp add: bandsOK_def)

lemma scanPhaseBanded_length:
  "length (allKmers (scanPhaseBanded d K t fci n m s)) = length (allKmers s)"
  using scanThreads_move[of d K t fci n s "[0 ..< m]"] by (simp add: scanPhaseBanded_def)

lemma DICPB_bandsOK:
  "DoIncrementalClusteringParallelBanded K t d r f c n n s = Inr s' \<Longrightarrow> bandsOK n s \<Longrightarrow>
     bandsOK n s' \<and> length (allKmers s') = length (allKmers s)"
  by (auto simp: DoIncrementalClusteringParallelBanded_def Let_def scanPhaseBanded_bandsOK
      scanPhaseBanded_length split: if_splits)

lemma DICPB_error:
  "DoIncrementalClusteringParallelBanded K t d r f c n m s = Inl (e, s') \<Longrightarrow>
     s' = s \<and> clusters s = [] \<and> r = 0
     \<and> e = Exception ''clusters.size() == 0 && requestedClusterCount == 0''"
  by (auto simp: DoIncrementalClusteringParallelBanded_def Let_def split: if_splits)

lemma scanThreads_clusters_length:
  "length (clusters (foldl (\<lambda>s th. scanThread d K t f n th s) s ths)) = length (clusters s)"
proof (rule foldl_invariant[where P = "\<lambda>s'. length (clusters s') = length (clusters s)"])
  show "length (clusters s) = length (clusters s)" by simp
  fix s' :: "(nat list) ClusterState" and th
  assume a: "length (clusters s') = length (clusters s)"
  have "length (clusters (scanLoopBanded d K t f th e i s')) = length (clusters s')" for e i
  proof (induction d K t f th e i s' rule: scanLoopBanded.induct)
    case (1 d K t f th e i s')
    then show ?case
      by (subst scanLoopBanded.simps)
         (simp add: scanKmerBanded_clusters del: scanKmerBanded_protos)
  qed
  with a show "length (clusters (scanThread d K t f n th s')) = length (clusters s)"
    by (simp add: scanThread_def)
qed

lemma seedClustersBanded_clusters_length:
  "length (clusters s) \<le> length (clusters (seedClustersBanded c r n s))"
  unfolding seedClustersBanded_def
  by (rule foldl_invariant[where P = "\<lambda>s'. length (clusters s) \<le> length (clusters s')"])
     (simp_all add: seedClustersThread_def Let_def)

lemma DICPB_clusters_ne:
  assumes "DoIncrementalClusteringParallelBanded K t d r f c n m s = Inr s'"
    and "clusters s \<noteq> []"
  shows "clusters s' \<noteq> []"
proof -
  let ?s1 = "if r > 0 then seedClustersBanded c r n s else s"
  have "length (clusters s) \<le> length (clusters ?s1)"
    by (simp add: seedClustersBanded_clusters_length)
  moreover from assms(1) have "s' = foldl (\<lambda>s th. scanThread d K t f n th s) ?s1 [0 ..< m]"
    by (auto simp: DoIncrementalClusteringParallelBanded_def scanPhaseBanded_def Let_def
        split: if_splits)
  then have "length (clusters s') = length (clusters ?s1)"
    by (simp only: scanThreads_clusters_length)
  ultimately have "length (clusters s) \<le> length (clusters s')" by simp
  with assms(2) show ?thesis by auto
qed

lemma foldl_add_shift:
  "foldl (\<lambda>acc i. acc + (g i :: nat)) a is = a + foldl (\<lambda>acc i. acc + g i) 0 is"
proof (induction "is" arbitrary: a)
  case Nil
  then show ?case by simp
next
  case (Cons i "is")
  have "foldl (\<lambda>acc i. acc + g i) (a + g i) is = a + g i + foldl (\<lambda>acc i. acc + g i) 0 is"
    by (rule Cons.IH)
  moreover have "foldl (\<lambda>acc i. acc + g i) (0 + g i) is = g i + foldl (\<lambda>acc i. acc + g i) 0 is"
    using Cons.IH[of "g i"] by simp
  ultimately show ?case by simp
qed

lemma bands_telescope:
  "foldl (\<lambda>acc i. acc + (endIdx N n i - beginIdx N n i)) 0 [0 ..< m] = beginIdx N n m"
proof (induction m)
  case 0
  show ?case by (simp add: beginIdx_def)
next
  case (Suc m)
  have "beginIdx N n m \<le> endIdx N n m" by (rule beginIdx_le_endIdx)
  with Suc show ?case by (simp add: beginIdx_Suc)
qed

lemma bandSum_le:
  assumes "bandsOK n s"
  shows "bandSum n (length (allKmers s)) (firstUnallocIndex s) \<le> length (allKmers s)"
proof -
  let ?N = "length (allKmers s)"
  let ?f = "firstUnallocIndex s"
  have n: "0 < n" using assms by (simp add: bandsOK_def)
  have "foldl (\<lambda>acc i. acc + (?f ! i - beginIdx ?N n i)) 0 [0 ..< n]
      \<le> foldl (\<lambda>acc i. acc + (endIdx ?N n i - beginIdx ?N n i)) 0 [0 ..< n]"
  proof -
    have "foldl (\<lambda>acc i. acc + (?f ! i - beginIdx ?N n i)) a is
      \<le> foldl (\<lambda>acc i. acc + (endIdx ?N n i - beginIdx ?N n i)) a is"
      if "set is \<subseteq> {..<n}" for a "is"
      using that
    proof (induction "is" arbitrary: a)
      case Nil
      show ?case by simp
    next
      case (Cons i "is")
      then have "i < n" by simp
      then have le: "?f ! i - beginIdx ?N n i \<le> endIdx ?N n i - beginIdx ?N n i"
        using bandsOK_D(2)[OF assms] by (simp add: diff_le_mono)
      have "foldl (\<lambda>acc i. acc + (?f ! i - beginIdx ?N n i)) (a + (?f ! i - beginIdx ?N n i)) is
          \<le> foldl (\<lambda>acc i. acc + (endIdx ?N n i - beginIdx ?N n i))
               (a + (?f ! i - beginIdx ?N n i)) is"
        using Cons by simp
      also have "\<dots> = (a + (?f ! i - beginIdx ?N n i))
            + foldl (\<lambda>acc i. acc + (endIdx ?N n i - beginIdx ?N n i)) 0 is"
        by (rule foldl_add_shift)
      also have "\<dots> \<le> (a + (endIdx ?N n i - beginIdx ?N n i))
            + foldl (\<lambda>acc i. acc + (endIdx ?N n i - beginIdx ?N n i)) 0 is"
        using le by simp
      also have "\<dots> = foldl (\<lambda>acc i. acc + (endIdx ?N n i - beginIdx ?N n i))
            (a + (endIdx ?N n i - beginIdx ?N n i)) is"
        by (rule foldl_add_shift[symmetric])
      finally show ?case by simp
    qed
    moreover have "set [0 ..< n] \<subseteq> {..<n}" by auto
    ultimately show ?thesis by blast
  qed
  also have "\<dots> = beginIdx ?N n n" by (rule bands_telescope)
  also have "\<dots> = ?N" using n by (simp add: beginIdx_def)
  finally show ?thesis by (simp add: bandSum_def)
qed

lemma word_fold_bandSum:
  assumes "\<forall>i \<in> set is. b i \<le> (g i :: nat)"
  shows "foldl (\<lambda>(acc :: 64 word) i. acc + (word_of_nat (g i) - word_of_nat (b i)))
           (word_of_nat a) is
       = word_of_nat (foldl (\<lambda>acc i. acc + (g i - b i)) a is)"
  using assms
proof (induction "is" arbitrary: a)
  case Nil
  show ?case by simp
next
  case (Cons i "is")
  let ?F = "\<lambda>(acc :: 64 word) i. acc + (word_of_nat (g i) - word_of_nat (b i))"
  let ?G = "\<lambda>(acc :: nat) i. acc + (g i - b i)"
  from Cons.prems have "b i \<le> g i" and rest: "\<forall>i \<in> set is. b i \<le> g i" by simp_all
  then have "(word_of_nat (g i) - word_of_nat (b i) :: 64 word) = word_of_nat (g i - b i)"
    by (simp add: of_nat_diff)
  then have step: "(word_of_nat a + (word_of_nat (g i) - word_of_nat (b i)) :: 64 word)
      = word_of_nat (a + (g i - b i))"
    by simp
  have "foldl ?F (word_of_nat a) (i # is)
      = foldl ?F (word_of_nat a + (word_of_nat (g i) - word_of_nat (b i))) is"
    by (simp only: foldl_Cons)
  also have "\<dots> = foldl ?F (word_of_nat (a + (g i - b i))) is"
    by (simp only: step)
  also have "\<dots> = word_of_nat (foldl ?G (a + (g i - b i)) is)"
    using rest by (rule Cons.IH)
  also have "\<dots> = word_of_nat (foldl ?G a (i # is))"
    by (simp only: foldl_Cons)
  finally show ?case .
qed

lemma GetUnallocated_bandSum:
  assumes ok: "bandsOK n s" and N: "length (allKmers s) < 2 ^ 64"
  shows "GetUnallocated n (length (allKmers s)) (firstUnallocIndex s)
       = bandSum n (length (allKmers s)) (firstUnallocIndex s)"
proof -
  let ?N = "length (allKmers s)"
  let ?f = "firstUnallocIndex s"
  have "\<forall>i \<in> set [0 ..< n]. beginIdx ?N n i \<le> ?f ! i"
    using bandsOK_D(1)[OF ok] by simp
  from word_fold_bandSum[OF this, of 0]
  have "GetUnallocated n ?N ?f = unat (word_of_nat (bandSum n ?N ?f) :: 64 word)"
    by (simp add: GetUnallocated_def bandSum_def)
  moreover have "bandSum n ?N ?f < 2 ^ LENGTH(64)"
    using bandSum_le[OF ok] N by simp
  then have "unat (word_of_nat (bandSum n ?N ?f) :: 64 word) = bandSum n ?N ?f"
    by (simp only: unat_of_nat mod_less)
  ultimately show ?thesis by simp
qed

lemma GetUnallocated_le:
  assumes "bandsOK n s" and "length (allKmers s) < 2 ^ 64"
  shows "GetUnallocated n (length (allKmers s)) (firstUnallocIndex s) \<le> length (allKmers s)"
  using bandSum_le[OF assms(1)] by (simp only: GetUnallocated_bandSum[OF assms])

lemma DICPB_count_mono:
  assumes r: "DoIncrementalClusteringParallelBanded K t d inc f c n n s = Inr s'"
    and ok: "bandsOK n s" and N: "length (allKmers s) < 2 ^ 64"
  shows "GetUnallocated n (length (allKmers s)) (firstUnallocIndex s)
       \<le> GetUnallocated n (length (allKmers s)) (firstUnallocIndex s')"
proof -
  from DICPB_bandsOK[OF r ok] have ok': "bandsOK n s'"
    and len: "length (allKmers s') = length (allKmers s)" by simp_all
  from GetUnallocated_bandSum[OF ok' N[folded len]] len
  have "GetUnallocated n (length (allKmers s)) (firstUnallocIndex s')
      = bandSum n (length (allKmers s)) (firstUnallocIndex s')" by simp
  with GetUnallocated_bandSum[OF ok N] DICPB_alloc_mono[OF r] show ?thesis by simp
qed

lemma passLoopBanded_course:
  "m = n \<Longrightarrow> bandsOK n s \<Longrightarrow> length (allKmers s) = N \<Longrightarrow> N < 2 ^ 64 \<Longrightarrow>
   na = GetUnallocated n N (firstUnallocIndex s) \<Longrightarrow>
     bandsOK n (finalState (passLoopBanded w t d ci cp n m N na fci inc s))
     \<and> length (allKmers (finalState (passLoopBanded w t d ci cp n m N na fci inc s))) = N
     \<and> na \<le> GetUnallocated n N
               (firstUnallocIndex (finalState (passLoopBanded w t d ci cp n m N na fci inc s)))
     \<and> (\<exists>p h. p \<le> N - na
           \<and> passesWithProgressBanded w t d ci cp n m N p (fci, inc, s) = Some h
           \<and> leavesAtBanded w t d cp n m N h (passLoopBanded w t d ci cp n m N na fci inc s))
     \<and> (\<forall>e s'. passLoopBanded w t d ci cp n m N na fci inc s = Inl (e, s') \<longrightarrow> clusters s' = []
           \<and> e = Exception ''clusters.size() == 0 && requestedClusterCount == 0'')"
proof (induction w t d ci cp n m N na fci inc s rule: passLoopBanded.induct)
  case (1 w t d ci cp n m N na fci inc s)
  from "1.prems" have mn: "m = n" and ok: "bandsOK n s" and len: "length (allKmers s) = N"
    and N: "N < 2 ^ 64" and na: "na = GetUnallocated n N (firstUnallocIndex s)"
    by simp_all
  have leN: "GetUnallocated n N (firstUnallocIndex s) \<le> N"
    using GetUnallocated_le[OF ok] len N by simp
  show ?case
  proof (cases "na < N")
    case False
    then have unf: "passLoopBanded w t d ci cp n m N na fci inc s = Inr s"
      by (subst passLoopBanded.simps) simp
    have "passesWithProgressBanded w t d ci cp n m N 0 (fci, inc, s) = Some (fci, inc, s)
        \<and> leavesAtBanded w t d cp n m N (fci, inc, s) (Inr s)"
      using False na by (simp add: leavesAtBanded_def)
    then have "\<exists>p h. p \<le> N - na
           \<and> passesWithProgressBanded w t d ci cp n m N p (fci, inc, s) = Some h
           \<and> leavesAtBanded w t d cp n m N h (Inr s)"
      by (intro exI[of _ 0] exI[of _ "(fci, inc, s)"]) simp
    with ok len na show ?thesis unfolding unf by simp
  next
    case True
    show ?thesis
    proof (cases "DoIncrementalClusteringParallelBanded w t d inc fci cp n m s")
      case (Inl a)
      obtain e s' where a: "a = (e, s')" by (cases a)
      have unf: "passLoopBanded w t d ci cp n m N na fci inc s = Inl (e, s')"
        using True Inl a by (subst passLoopBanded.simps) simp
      have "passesWithProgressBanded w t d ci cp n m N 0 (fci, inc, s) = Some (fci, inc, s)
          \<and> leavesAtBanded w t d cp n m N (fci, inc, s) (Inl (e, s'))"
        using True Inl a na by (simp add: leavesAtBanded_def)
      then have "\<exists>p h. p \<le> N - na
           \<and> passesWithProgressBanded w t d ci cp n m N p (fci, inc, s) = Some h
           \<and> leavesAtBanded w t d cp n m N h (Inl (e, s'))"
        by (intro exI[of _ 0] exI[of _ "(fci, inc, s)"]) simp
      with DICPB_error[OF Inl[unfolded a]] ok len na show ?thesis unfolding unf by simp
    next
      case (Inr s')
      note Inr' = Inr[unfolded mn]
      from DICPB_bandsOK[OF Inr' ok] len
      have ok': "bandsOK n s'" and len': "length (allKmers s') = N" by simp_all
      have mono: "na \<le> GetUnallocated n N (firstUnallocIndex s')"
        using DICPB_count_mono[OF Inr' ok] len N na by simp
      have le': "GetUnallocated n N (firstUnallocIndex s') \<le> N"
        using GetUnallocated_le[OF ok'] len' N by simp
      show ?thesis
      proof (cases "GetUnallocated n N (firstUnallocIndex s') = na")
        case same: True
        have unf: "passLoopBanded w t d ci cp n m N na fci inc s = Inr s'"
          using True Inr same by (subst passLoopBanded.simps) (simp add: Let_def)
        have "passesWithProgressBanded w t d ci cp n m N 0 (fci, inc, s) = Some (fci, inc, s)
            \<and> leavesAtBanded w t d cp n m N (fci, inc, s) (Inr s')"
          using True Inr same na by (simp add: leavesAtBanded_def)
        then have "\<exists>p h. p \<le> N - na
             \<and> passesWithProgressBanded w t d ci cp n m N p (fci, inc, s) = Some h
             \<and> leavesAtBanded w t d cp n m N h (Inr s')"
          by (intro exI[of _ 0] exI[of _ "(fci, inc, s)"]) simp
        with same ok' len' show ?thesis unfolding unf by simp
      next
        case moved: False
        let ?na' = "GetUnallocated n N (firstUnallocIndex s')"
        have unf: "passLoopBanded w t d ci cp n m N na fci inc s
            = passLoopBanded w t d ci cp n m N ?na' (length (clusters s')) ci s'"
          using True Inr moved by (subst passLoopBanded.simps) (simp add: Let_def)
        note IH = "1.IH"[OF True refl Inr refl moved mn ok' len' N refl]
        let ?r = "passLoopBanded w t d ci cp n m N ?na' (length (clusters s')) ci s'"
        from IH have a: "bandsOK n (finalState ?r)" by (rule conjunct1)
        from IH have b: "length (allKmers (finalState ?r)) = N"
          by (rule conjunct2[THEN conjunct1])
        from IH have c: "?na' \<le> GetUnallocated n N (firstUnallocIndex (finalState ?r))"
          by (rule conjunct2[THEN conjunct2, THEN conjunct1])
        from IH obtain p h where p: "p \<le> N - ?na'"
          and ph: "passesWithProgressBanded w t d ci cp n m N p (length (clusters s'), ci, s')
                     = Some h"
          and lv: "leavesAtBanded w t d cp n m N h ?r"
          by blast
        from IH have e: "\<forall>e s'. ?r = Inl (e, s') \<longrightarrow> clusters s' = []
           \<and> e = Exception ''clusters.size() == 0 && requestedClusterCount == 0''"
          by (rule conjunct2[THEN conjunct2, THEN conjunct2, THEN conjunct2])
        have lt: "na < ?na'" using mono moved by simp
        have p': "Suc p \<le> N - na" using p lt le' by simp
        have step: "passesWithProgressBanded w t d ci cp n m N (Suc p) (fci, inc, s) = Some h"
          using True Inr moved ph na by simp
        have d: "\<exists>p h. p \<le> N - na
             \<and> passesWithProgressBanded w t d ci cp n m N p (fci, inc, s) = Some h
             \<and> leavesAtBanded w t d cp n m N h ?r"
          using p' step lv by blast
        show ?thesis unfolding unf
          by (intro conjI) (fact a, fact b, rule order_trans[OF mono c], fact d, fact e)
      qed
    qed
  qed
qed

lemma passLoopBanded_normal:
  "clusters s \<noteq> [] \<or> (0 < inc \<and> 0 < ci) \<Longrightarrow>
     \<exists>s'. passLoopBanded w t d ci cp n m N na fci inc s = Inr s'"
proof (induction w t d ci cp n m N na fci inc s rule: passLoopBanded.induct)
  case (1 w t d ci cp n m N na fci inc s)
  show ?case
  proof (cases "na < N")
    case False
    then show ?thesis by (subst passLoopBanded.simps) simp
  next
    case True
    from "1.prems"(1) obtain s' where
      r: "DoIncrementalClusteringParallelBanded w t d inc fci cp n m s = Inr s'"
      by (auto simp: DoIncrementalClusteringParallelBanded_def Let_def)
    show ?thesis
    proof (cases "GetUnallocated n N (firstUnallocIndex s') = na")
      case same: True
      with True r show ?thesis by (subst passLoopBanded.simps) (simp add: Let_def)
    next
      case moved: False
      have ne: "clusters s' \<noteq> [] \<or> (0 < ci \<and> 0 < ci)"
      proof (cases "clusters s = []")
        case False
        with DICPB_clusters_ne[OF r] show ?thesis by simp
      next
        case True
        with "1.prems"(1) show ?thesis by simp
      qed
      from "1.IH"[OF True refl r refl moved ne] True r moved
      show ?thesis by (subst passLoopBanded.simps) (simp add: Let_def)
    qed
  qed
qed

lemma passLoopBanded_terminates:
  "passLoopBanded_dom (w, t, d, ci, cp, n, m, N, na, fci, inc, s)"
proof (induction "2 * bandPotential (length (allKmers s)) n (firstUnallocIndex s)
        + (if na = GetUnallocated n N (firstUnallocIndex s) then 0 else 1 :: nat)"
    arbitrary: s na fci inc rule: less_induct)
  case less
  show ?case
  proof (rule passLoopBanded.domintros)
    fix s'
    assume lt: "na < N"
      and r: "DoIncrementalClusteringParallelBanded w t d inc fci cp n m s = Inr s'"
      and ne: "GetUnallocated n N (firstUnallocIndex s') \<noteq> na"
    let ?xa = "GetUnallocated n N (firstUnallocIndex s')"
    have "2 * bandPotential (length (allKmers s')) n (firstUnallocIndex s')
          + (if ?xa = GetUnallocated n N (firstUnallocIndex s') then 0 else 1)
        < 2 * bandPotential (length (allKmers s)) n (firstUnallocIndex s)
          + (if na = GetUnallocated n N (firstUnallocIndex s) then 0 else 1)"
      using DICPB_measure[OF r ne] by simp
    then show "passLoopBanded_dom
        (w, t, d, ci, cp, n, m, N, ?xa, length (clusters s'), ci, s')"
      by (rule less)
  qed
qed

subsection \<open>Termination of the pass loop\<close>




subsection \<open>Duplicates in the banded variant\<close>

text \<open>
  Claim C2 (no k-mer in two member lists, unassigned k-mers in none) fails in the banded
  variant. With one thread, the three k-mers below and every random draw 0, the shuffle
  leaves the array as a, b, c. Pass 1 seeds a cluster from a; the scan appends a to it at
  \<^verbatim>\<open>i == firstUnallocIndex[0]\<close>, where the mark is not advanced, then appends b and
  swaps b in front of a. Pass 2 seeds a second cluster from a, still in the unassigned
  range, and appends a to it as well. The run ends with a in both member lists.
\<close>

theorem banded_run_puts_a_kmer_in_two_clusters:
  "map (\<lambda>c. map substring (kmers c))
     (clusters (finalState (DoExhaustiveIncrementalClusteringBanded
        [exKmer ''b'' 1, exKmer ''c'' 2, exKmer ''a'' 1] 1 1 exDist (\<lambda>n. 0) 1 (\<lambda>k. k) [] 1 1)))
   = [[''a'', ''b''], [''a'']]"
  by code_simp

subsection \<open>The setup filter\<close>

text \<open>
  Claim C4 (after setup every k-mer whose self-distance exceeds the threshold is outside
  the working range and never becomes a seed) fails. A single k-mer at index 0 whose
  self-distance 9 exceeds the threshold 1 is never moved: the mark advances only when
  \<^verbatim>\<open>i > firstUnallocIndex\<close>. After setup the mark is 0, the k-mer is in the working range,
  and the first pass seeds a cluster from it, in both variants.
\<close>

theorem setup_filter_keeps_far_kmer:
  "real (unat (exSelfDist [7] [7] 1)) > 1
   \<and> firstUnallocIndex (setupPhase [exKmer ''w'' 7] 1 1 exSelfDist (\<lambda>n. 0) []) = 0
   \<and> allKmers (setupPhase [exKmer ''w'' 7] 1 1 exSelfDist (\<lambda>n. 0) []) = [exKmer ''w'' 7]
   \<and> map (\<lambda>c. substring (prototype c))
        (clusters (finalState (DoExhaustiveIncrementalClustering [exKmer ''w'' 7] 1 1
           exSelfDist (\<lambda>n. 0) 1 (\<lambda>k. k) []))) = [''w'']
   \<and> firstUnallocIndex (setupPhaseBanded [exKmer ''w'' 7] 1 1 exSelfDist (\<lambda>n. 0) [] 1 1) = [0]
   \<and> map (\<lambda>c. substring (prototype c))
        (clusters (finalState (DoExhaustiveIncrementalClusteringBanded [exKmer ''w'' 7] 1 1
           exSelfDist (\<lambda>n. 0) 1 (\<lambda>k. k) [] 1 1))) = [''w'']"
  by code_simp

subsection \<open>The k-mer index\<close>

lemma KmerAdd_instances [simp]:
  "length (instances (KmerAdd kmer seqId seq p)) = Suc (length (instances kmer))"
  by (simp add: KmerAdd_def Let_def)

lemma totalInstances_Nil [simp]: "totalInstances [] = 0"
  by (simp add: totalInstances_def GetKmers_def)

lemma totalInstances_Cons [simp]:
  "totalInstances ((key, kmer) # rest) = length (instances kmer) + totalInstances rest"
  by (simp add: totalInstances_def GetKmers_def)

lemma indexAdd_total:
  "totalInstances (indexAdd index s seqId seq p) = Suc (totalInstances index)"
  by (induction index s seqId seq p rule: indexAdd.induct) (simp_all add: newKmer_def)

lemma foldl_indexAdd_total:
  "totalInstances (foldl (\<lambda>index p. indexAdd index (f p) i seq p) index ps)
     = totalInstances index + length ps"
  by (induction ps arbitrary: index) (simp_all add: indexAdd_total)

lemma KmerCount_windows: "KmerCount s k = length (windowStarts s k)"
proof -
  have "filter (\<lambda>p. p + k \<le> length s) [0 ..< length s + 1] = [0 ..< length s + 1 - k]"
    if "k \<le> length s"
  proof -
    have "[0 ..< length s + 1] = [0 ..< length s + 1 - k] @ [length s + 1 - k ..< length s + 1]"
      using that by (metis diff_le_self le_add2 le_add_diff_inverse upt_add_eq_append zero_le)
    moreover have "filter (\<lambda>p. p + k \<le> length s) [0 ..< length s + 1 - k]
        = [0 ..< length s + 1 - k]"
      using that by (auto simp: filter_id_conv)
    moreover have "filter (\<lambda>p. p + k \<le> length s) [length s + 1 - k ..< length s + 1] = []"
      using that by (auto simp: filter_empty_conv)
    ultimately show ?thesis by simp
  qed
  moreover have "filter (\<lambda>p. p + k \<le> length s) [0 ..< length s + 1] = []"
    if "\<not> k \<le> length s"
    using that by (auto simp: filter_empty_conv)
  ultimately show ?thesis by (auto simp: KmerCount_def windowStarts_def Let_def)
qed

lemma uint_of_small: "n < 2 ^ 32 \<Longrightarrow> unat (word_of_nat n :: 32 word) = n"
proof -
  assume "n < 2 ^ 32"
  then have "n < 2 ^ LENGTH(32)" by simp
  then show ?thesis by (simp only: unat_of_nat mod_less)
qed

lemma indexSequence_total:
  assumes "KmerCount (Sequence seq) k < 2 ^ 32"
  shows "totalInstances (indexSequence k index i seq)
     = totalInstances index + length (windowStarts (Sequence seq) k)"
proof (cases "length (Sequence seq) < k")
  case True
  then have "KmerCount (Sequence seq) k = 0" by (simp add: KmerCount_def)
  with True show ?thesis by (simp add: indexSequence_def KmerCount_windows[symmetric])
next
  case False
  have "indexSequence k index i seq
      = foldl (\<lambda>index kmerPos. indexAdd index (Substring (Sequence seq) kmerPos k) i seq kmerPos)
          index [0 ..< KmerCount (Sequence seq) k]"
    using False by (simp add: indexSequence_def Let_def uint_of_small[OF assms])
  then show ?thesis
    by (simp add: foldl_indexAdd_total KmerCount_windows)
qed

lemma index_prefix_total:
  assumes "\<forall>seq \<in> set dataset. KmerCount (Sequence seq) k < 2 ^ 32"
  shows "m \<le> length dataset \<Longrightarrow>
     totalInstances (foldl (\<lambda>index i. indexSequence k index i (dataset ! i)) [] [0 ..< m])
       = sum_list (map (\<lambda>seq. length (windowStarts (Sequence seq) k)) (take m dataset))"
proof (induction m)
  case 0
  show ?case by simp
next
  case (Suc m)
  then have tk: "take (Suc m) dataset = take m dataset @ [dataset ! m]"
    by (simp add: take_Suc_conv_app_nth)
  from Suc.prems have "dataset ! m \<in> set dataset" by simp
  with assms have "KmerCount (Sequence (dataset ! m)) k < 2 ^ 32" by blast
  with Suc tk show ?case by (simp add: indexSequence_total)
qed

lemma index_of_wrapped_count:
  assumes "length (Sequence seq) = 2 ^ 32"
  shows "totalInstances (KmerIndex [seq] 1) = 0"
    and "length (windowStarts (Sequence seq) 1) = 2 ^ 32"
proof -
  have c: "KmerCount (Sequence seq) 1 = 2 ^ 32" using assms by (simp add: KmerCount_def)
  have "unat (word_of_nat (2 ^ 32) :: 32 word) = 0" by simp
  then have z: "unat (word_of_nat (KmerCount (Sequence seq) (Suc 0)) :: 32 word) = 0"
    using c by simp
  have "indexSequence 1 [] 0 seq = []"
    by (simp add: indexSequence_def Let_def z)
  then show "totalInstances (KmerIndex [seq] 1) = 0" by (simp add: KmerIndex_def)
  show "length (windowStarts (Sequence seq) 1) = 2 ^ 32"
    using c by (simp only: KmerCount_windows)
qed

text \<open>
  The count of windows is truncated to 32 bits. A single sequence of \<open>2^32\<close> residues has
  \<open>2^32\<close> windows of length 1; the truncated count is 0 and the index holds no instance.
\<close>

theorem index_drops_windows_beyond_32_bits:
  "totalInstances (KmerIndex
      [\<lparr>Sequence = replicate (2 ^ 32) (CHR ''a''), GetEncodedKmer = (\<lambda>p. [0])\<rparr>] 1) = 0
   \<and> length (windowStarts (replicate (2 ^ 32) (CHR ''a'')) 1) = 2 ^ 32"
proof -
  let ?seq = "\<lparr>Sequence = replicate (2 ^ 32) (CHR ''a''), GetEncodedKmer = (\<lambda>p. [0 :: KmerWord])\<rparr>"
  have l: "length (Sequence ?seq) = 2 ^ 32"
    by (simp only: EncodedFastaSequence.select_convs length_replicate)
  from index_of_wrapped_count[OF l] show ?thesis
    by (simp only: EncodedFastaSequence.select_convs) 
qed

text \<open>
  Claim C7. When every sequence of the dataset has fewer than \<open>2^32\<close> windows of length
  \<open>kmerLength\<close>, the index built from the dataset holds one instance for every window:
  the sizes of the instance lists of all its records add up to the sum, over the sequences,
  of the number of start positions of a window of length \<open>kmerLength\<close>. A sequence shorter
  than \<open>kmerLength\<close> has no such position and leaves the index as it was.
\<close>

theorem index_counts_every_window:
  "((\<forall>seq \<in> set dataset. length (windowStarts (Sequence seq) kmerLength) < 2 ^ 32)
      \<longrightarrow> totalInstances (KmerIndex dataset kmerLength)
            = sum_list (map (\<lambda>seq. length (windowStarts (Sequence seq) kmerLength)) dataset))
   \<and> (\<forall>seq. length (Sequence seq) < kmerLength
          \<longrightarrow> windowStarts (Sequence seq) kmerLength = []
            \<and> (\<forall>index i. indexSequence kmerLength index i seq = index))"
proof (intro conjI allI impI)
  assume "\<forall>seq \<in> set dataset. length (windowStarts (Sequence seq) kmerLength) < 2 ^ 32"
  then have b: "\<forall>seq \<in> set dataset. KmerCount (Sequence seq) kmerLength < 2 ^ 32"
    by (simp only: KmerCount_windows)
  show "totalInstances (KmerIndex dataset kmerLength)
         = sum_list (map (\<lambda>seq. length (windowStarts (Sequence seq) kmerLength)) dataset)"
    using index_prefix_total[OF b, of "length dataset"] by (simp add: KmerIndex_def)
next
  fix seq :: EncodedFastaSequence
  assume "length (Sequence seq) < kmerLength"
  then show "windowStarts (Sequence seq) kmerLength = []"
    by (auto simp: windowStarts_def filter_empty_conv)
next
  fix seq :: EncodedFastaSequence and index i
  assume "length (Sequence seq) < kmerLength"
  then show "indexSequence kmerLength index i seq = index"
    by (simp add: indexSequence_def)
qed

theorem index_counts_every_window_witness:
  "totalInstances (KmerIndex
      [\<lparr>Sequence = ''acac'', GetEncodedKmer = (\<lambda>p. [0])\<rparr>,
       \<lparr>Sequence = ''a'', GetEncodedKmer = (\<lambda>p. [0])\<rparr>] 2) = 3
   \<and> windowStarts ''a'' 2 = []
   \<and> indexSequence 2 [] 1 \<lparr>Sequence = ''a'', GetEncodedKmer = (\<lambda>p. [0])\<rparr> = []"
proof -
  have w: "windowStarts ''acac'' 2 = [0, 1, 2]" "windowStarts ''a'' 2 = []"
    by (simp_all add: windowStarts_def upt_rec)
  show ?thesis
    using index_counts_every_window[of
        "[\<lparr>Sequence = ''acac'', GetEncodedKmer = (\<lambda>p. [0])\<rparr>,
          \<lparr>Sequence = ''a'', GetEncodedKmer = (\<lambda>p. [0])\<rparr>]" 2]
    by (simp add: w)
qed

subsection \<open>The exact medoid\<close>

lemma foldl_nth_upt:
  "foldl (\<lambda>a i. f a (xs ! i)) a [0 ..< length xs] = foldl f a xs"
proof (induction xs rule: rev_induct)
  case Nil
  show ?case by simp
next
  case (snoc x xs)
  have "foldl (\<lambda>a i. f a ((xs @ [x]) ! i)) a [0 ..< length xs]
      = foldl (\<lambda>a i. f a (xs ! i)) a [0 ..< length xs]"
    by (rule foldl_cong) (auto simp: nth_append)
  with snoc show ?case by simp
qed

lemma medoidInner_list:
  "c < length ad \<Longrightarrow> c < length ac \<Longrightarrow>
   foldl (\<lambda>(ad, ac) c'.
        (ad[c := ad ! c + unat (distance (kmerCodes ! c) (kmerCodes ! c') K)],
         ac[c := ac ! c + 1])) (ad, ac) cs
   = (ad[c := ad ! c + sum_list (map (\<lambda>c'. unat (distance (kmerCodes ! c) (kmerCodes ! c') K)) cs)],
      ac[c := ac ! c + length cs])"
  by (induction cs arbitrary: ad ac) (simp_all add: add.assoc)

lemma medoidInner_eq:
  assumes "c < length ad" "c < length ac"
  shows "medoidInner distance kmerCodes K ca c (ad, ac)
     = (ad[c := ad ! c + totalDistance distance kmerCodes K ca c], ac[c := ac ! c + length ca])"
proof -
  have "medoidInner distance kmerCodes K ca c (ad, ac)
      = foldl (\<lambda>(ad, ac) c'.
          (ad[c := ad ! c + unat (distance (kmerCodes ! c) (kmerCodes ! c') K)],
           ac[c := ac ! c + 1])) (ad, ac) ca"
    unfolding medoidInner_def Let_def
    using foldl_nth_upt[of "\<lambda>(ad, ac) c'.
          (ad[c := ad ! c + unat (distance (kmerCodes ! c) (kmerCodes ! c') K)],
           ac[c := ac ! c + 1])" ca "(ad, ac)"]
    by (simp add: case_prod_unfold)
  then show ?thesis
    using medoidInner_list[OF assms, of distance kmerCodes K ca]
    by (simp add: totalDistance_def)
qed

lemma medoidTotals_list:
  assumes "\<forall>c \<in> set cs. c < length ad \<and> c < length ac"
  shows "\<exists>ad' ac'.
     foldl (\<lambda>(ad, ac) c. medoidInner distance kmerCodes K ca c (ad[c := 0], ac[c := 0]))
        (ad, ac) cs = (ad', ac')
     \<and> length ad' = length ad \<and> length ac' = length ac
     \<and> (\<forall>c \<in> set cs. ad' ! c = totalDistance distance kmerCodes K ca c)"
  using assms
proof (induction cs rule: rev_induct)
  case Nil
  show ?case by simp
next
  case (snoc x xs)
  then obtain ad' ac' where
    f: "foldl (\<lambda>(ad, ac) c. medoidInner distance kmerCodes K ca c (ad[c := 0], ac[c := 0]))
        (ad, ac) xs = (ad', ac')"
    and l: "length ad' = length ad" "length ac' = length ac"
    and t: "\<forall>c \<in> set xs. ad' ! c = totalDistance distance kmerCodes K ca c"
    by auto
  from snoc.prems l have x: "x < length ad'" "x < length ac'" by auto
  have step: "medoidInner distance kmerCodes K ca x (ad'[x := 0], ac'[x := 0])
      = (ad'[x := totalDistance distance kmerCodes K ca x], ac'[x := length ca])"
    using medoidInner_eq[of x "ad'[x := 0]" "ac'[x := 0]" distance kmerCodes K ca] x
    by simp
  have "\<forall>c \<in> set (xs @ [x]).
      (ad'[x := totalDistance distance kmerCodes K ca x]) ! c
        = totalDistance distance kmerCodes K ca c"
    using t x by (auto simp: nth_list_update)
  with f step l show ?case by simp
qed

lemma medoidTotals_eq:
  assumes "\<forall>c \<in> set ca. c < length ad \<and> c < length ac"
  shows "\<exists>ad' ac'. medoidTotals distance kmerCodes K ca (ad, ac) = (ad', ac')
     \<and> (\<forall>c \<in> set ca. ad' ! c = totalDistance distance kmerCodes K ca c)"
proof -
  have "medoidTotals distance kmerCodes K ca (ad, ac)
      = foldl (\<lambda>(ad, ac) c. medoidInner distance kmerCodes K ca c (ad[c := 0], ac[c := 0]))
          (ad, ac) ca"
    unfolding medoidTotals_def Let_def
    using foldl_nth_upt[of "\<lambda>(ad, ac) c.
        medoidInner distance kmerCodes K ca c (ad[c := 0], ac[c := 0])" ca "(ad, ac)"]
    by (simp add: case_prod_unfold)
  with medoidTotals_list[OF assms, of distance kmerCodes K ca] show ?thesis by auto
qed

lemma medoidSelect_list:
  "m0 \<in> S \<Longrightarrow> set cs \<subseteq> S \<Longrightarrow>
   (let m = foldl (\<lambda>m c. if (ad :: nat list) ! c < ad ! m then c else m) m0 cs
    in m \<in> S \<and> ad ! m \<le> ad ! m0 \<and> (\<forall>c \<in> set cs. ad ! m \<le> ad ! c))"
proof (induction cs rule: rev_induct)
  case Nil
  then show ?case by simp
next
  case (snoc x xs)
  then show ?case by (auto simp: Let_def)
qed

lemma medoidSelect_min:
  assumes "ca \<noteq> []"
  shows "medoidSelect ad ca \<in> set ca \<and> (\<forall>c \<in> set ca. ad ! medoidSelect ad ca \<le> ad ! c)"
proof -
  have "medoidSelect ad ca = foldl (\<lambda>m c. if ad ! c < ad ! m then c else m) (ca ! 0) ca"
    unfolding medoidSelect_def Let_def
    using foldl_nth_upt[of "\<lambda>m c. if ad ! c < ad ! m then c else m" ca "ca ! 0"] by simp
  moreover have "ca ! 0 \<in> set ca" using assms by simp
  ultimately show ?thesis
    using medoidSelect_list[of "ca ! 0" "set ca" ca ad] by (simp add: Let_def)
qed




subsection \<open>The distance cache: sums of cells\<close>

lemma sint8_bound: "sint (c :: CacheType) < 128"
  using sint_lt[of c] by simp

lemma unat_scast_nonneg:
  assumes "0 \<le> sint (c :: CacheType)"
  shows "unat (scast c :: Distance) = nat (sint c)"
proof -
  have "(2::int) ^ 16 = 65536" by simp
  then have "sint c < 2 ^ 16" using sint8_bound[of c] by linarith
  with assms have "take_bit 16 (sint c) = sint c" by (rule take_bit_int_eq_self)
  then show ?thesis by (simp only: scast_eq unat_eq_nat_uint uint_word_of_int_eq) simp
qed

lemma unat_add_scast:
  assumes "0 \<le> sint (c :: CacheType)" "unat (acc :: Distance) + nat (sint c) \<le> 65535"
  shows "unat (acc + scast c) = unat acc + nat (sint c)"
proof -
  have "unat acc + unat (scast c :: Distance) < 2 ^ LENGTH(16)"
    using assms by (simp add: unat_scast_nonneg)
  then have "unat (acc + scast c) = unat acc + unat (scast c :: Distance)"
    by (rule unat_add_lem[THEN iffD1])
  with assms show ?thesis by (simp add: unat_scast_nonneg)
qed

lemma scast_ucast_small:
  assumes "unat (t :: Distance) \<le> 127"
  shows "scast (ucast t :: CacheType) = t"
proof -
  have "uint t = int (unat t)" by (rule uint_nat)
  with assms have k: "0 \<le> uint t" "uint t < 128" by linarith+
  have p: "(2::int) ^ 8 = 256" "(2::int) ^ 7 = 128" by simp_all
  have "uint t < 2 ^ 8" using k p by linarith
  with k(1) have tb: "take_bit 8 (uint t) = uint t" by (rule take_bit_int_eq_self)
  have "- (2 ^ 7) \<le> uint t" "uint t < 2 ^ 7" using k p by linarith+
  then have stb: "signed_take_bit 7 (uint t) = uint t" by (rule signed_take_bit_int_eq_self)
  have "sint (ucast t :: CacheType) = uint t"
    by (simp only: ucast_eq sint_uint uint_word_of_int_eq) (simp add: tb stb)
  then show ?thesis by (simp add: scast_eq)
qed


lemma foldl_scast_unat:
  assumes "\<forall>c \<in> set cs. 0 \<le> sint (c :: CacheType)"
    and "unat (acc :: Distance) + sum_list (map (\<lambda>c. nat (sint c)) cs) \<le> 65535"
  shows "unat (foldl (\<lambda>d c. d + scast c) acc cs)
           = unat acc + sum_list (map (\<lambda>c. nat (sint c)) cs)"
  using assms
proof (induction cs arbitrary: acc)
  case Nil
  show ?case by simp
next
  case (Cons c cs)
  from Cons.prems have c: "0 \<le> sint c" and b: "unat acc + nat (sint c) \<le> 65535" by auto
  have u: "unat (acc + scast c) = unat acc + nat (sint c)" by (rule unat_add_scast[OF c b])
  have "unat (foldl (\<lambda>d c. d + scast c) (acc + scast c) cs)
      = unat (acc + scast c) + sum_list (map (\<lambda>c. nat (sint c)) cs)"
    using Cons.prems u by (intro Cons.IH) auto
  with u show ?case by simp
qed

lemma GetDistance_chunks:
  "GetDistance cache s t k = foldl (\<lambda>d c. d + scast c) 0 (chunkDistances cache s t k)"
proof -
  have m: "foldl (\<lambda>d c. d + scast c) (0 :: Distance) (map (lookup3 cache s t) [0 ..< k div 3])
      = foldl (\<lambda>d i. d + scast (lookup3 cache s t i)) 0 [0 ..< k div 3]"
    by (simp add: foldl_map)
  consider "k mod 3 = 0" | "k mod 3 = 1" | "k mod 3 = 2" by linarith
  then show ?thesis
    by cases (simp_all add: GetDistance_def chunkDistances_def Let_def m)
qed

lemma withinThrees_eq:
  assumes "\<forall>i \<in> set is. 0 \<le> sint (lookup3 cache s t i)"
    and "unat acc + sum_list (map (\<lambda>i. nat (sint (lookup3 cache s t i))) is) \<le> 65535"
    and "acc \<le> threshold"
  shows "withinThrees cache s t threshold acc is
      = (if foldl (\<lambda>d c. d + scast c) acc (map (lookup3 cache s t) is) \<le> threshold
         then Some (foldl (\<lambda>d c. d + scast c) acc (map (lookup3 cache s t) is)) else None)"
  using assms
proof (induction "is" arbitrary: acc)
  case Nil
  then show ?case by simp
next
  case (Cons i rest)
  let ?c = "lookup3 cache s t i"
  let ?acc = "acc + scast ?c"
  from Cons.prems have c: "0 \<le> sint ?c" and b: "unat acc + nat (sint ?c) \<le> 65535" by auto
  have u: "unat ?acc = unat acc + nat (sint ?c)" by (rule unat_add_scast[OF c b])
  have nn: "\<forall>c \<in> set (map (lookup3 cache s t) rest). 0 \<le> sint c" using Cons.prems by auto
  have bd: "unat ?acc + sum_list (map (\<lambda>c. nat (sint c)) (map (lookup3 cache s t) rest)) \<le> 65535"
    using Cons.prems u by (simp add: comp_def)
  have tot: "unat (foldl (\<lambda>d c. d + scast c) ?acc (map (lookup3 cache s t) rest))
      = unat ?acc + sum_list (map (\<lambda>c. nat (sint c)) (map (lookup3 cache s t) rest))"
    by (rule foldl_scast_unat[OF nn bd])
  show ?case
  proof (cases "?acc > threshold")
    case True
    then have "unat threshold < unat ?acc" by (simp add: word_less_nat_alt)
    with tot have "unat threshold
        < unat (foldl (\<lambda>d c. d + scast c) ?acc (map (lookup3 cache s t) rest))" by simp
    then have "\<not> foldl (\<lambda>d c. d + scast c) ?acc (map (lookup3 cache s t) rest) \<le> threshold"
      by (simp add: word_le_nat_alt)
    with True show ?thesis by (simp add: Let_def)
  next
    case False
    then have le: "?acc \<le> threshold" by simp
    have "withinThrees cache s t threshold ?acc rest
      = (if foldl (\<lambda>d c. d + scast c) ?acc (map (lookup3 cache s t) rest) \<le> threshold
         then Some (foldl (\<lambda>d c. d + scast c) ?acc (map (lookup3 cache s t) rest)) else None)"
      using Cons.prems u le by (intro Cons.IH) auto
    with False show ?thesis by (simp add: Let_def)
  qed
qed

text \<open>
  The running sum of \<^verbatim>\<open>IsWithin\<close> and the sum of \<^verbatim>\<open>GetDistance\<close> are 16-bit values. For two
  k-mers of length 1551 whose 517 chunks are each at the cached distance 127, and the
  threshold 200, \<^verbatim>\<open>IsWithin\<close> returns false at the second chunk and leaves \<open>result\<close> as it
  was, while \<^verbatim>\<open>GetDistance\<close> returns 517 * 127 - 65536 = 123, which is within the threshold.
\<close>

theorem early_exit_misses_wrapped_distance:
  "list_all (\<lambda>c. 0 \<le> sint c)
     (chunkDistances exCache (replicate 517 0) (replicate 517 0) 1551)
   \<and> IsWithin exCache (replicate 517 0) (replicate 517 0) 1551 200 7 = (False, 7)
   \<and> GetDistance exCache (replicate 517 0) (replicate 517 0) 1551 = 123
   \<and> GetDistance exCache (replicate 517 0) (replicate 517 0) 1551 \<le> 200"
  by code_simp

text \<open>
  Claim C6. When the cached distances of the chunks of two codes are non-negative and their
  sum does not exceed 65535, the largest \<^verbatim>\<open>Distance\<close>, then for every threshold
  \<^verbatim>\<open>IsWithin\<close> returns true exactly when \<^verbatim>\<open>GetDistance\<close> is at most the threshold; when it
  returns true the result holds the value of \<^verbatim>\<open>GetDistance\<close>, and when it returns false the
  result is the one passed in.
\<close>

theorem early_exit_agrees_with_distance:
  assumes "\<forall>c \<in> set (chunkDistances cache s t k). 0 \<le> sint c"
    and "sum_list (map (\<lambda>c. nat (sint c)) (chunkDistances cache s t k)) \<le> 65535"
  shows "IsWithin cache s t k threshold result
      = (if GetDistance cache s t k \<le> threshold then (True, GetDistance cache s t k)
         else (False, result))"
proof -
  let ?threes = "map (lookup3 cache s t) [0 ..< k div 3]"
  let ?d3 = "foldl (\<lambda>d c. d + scast c) (0 :: Distance) ?threes"
  have sub: "set ?threes \<subseteq> set (chunkDistances cache s t k)"
    by (simp add: chunkDistances_def)
  have s3: "sum_list (map (\<lambda>c. nat (sint c)) ?threes)
      \<le> sum_list (map (\<lambda>c. nat (sint c)) (chunkDistances cache s t k))"
    by (simp add: chunkDistances_def)
  have nn3: "\<forall>i \<in> set [0 ..< k div 3]. 0 \<le> sint (lookup3 cache s t i)"
    using assms(1) sub by auto
  have bd3: "unat (0 :: Distance)
      + sum_list (map (\<lambda>i. nat (sint (lookup3 cache s t i))) [0 ..< k div 3]) \<le> 65535"
    using s3 assms(2) by (simp add: comp_def)
  have w: "withinThrees cache s t threshold 0 [0 ..< k div 3]
      = (if ?d3 \<le> threshold then Some ?d3 else None)"
    by (rule withinThrees_eq[OF nn3 bd3]) simp
  have u3: "unat ?d3 = sum_list (map (\<lambda>c. nat (sint c)) ?threes)"
    using foldl_scast_unat[of ?threes 0] nn3 bd3 by (simp add: comp_def)
  consider (z) "k mod 3 = 0" | (r) "k mod 3 \<noteq> 0" by blast
  then show ?thesis
  proof cases
    case z
    then have "GetDistance cache s t k = ?d3"
      by (simp add: GetDistance_chunks chunkDistances_def)
    with z w show ?thesis by (simp add: IsWithin_def Let_def)
  next
    case r
    define c where "c = (if k mod 3 = 1 then lookup1 cache s t (k div 3)
                         else lookup2 cache s t (k div 3))"
    have ch: "chunkDistances cache s t k = ?threes @ [c]"
      using r by (simp add: chunkDistances_def c_def)
    have gd: "GetDistance cache s t k = ?d3 + scast c"
      by (simp add: GetDistance_chunks ch)
    have c0: "0 \<le> sint c" using assms(1) ch by simp
    have "unat ?d3 + nat (sint c) \<le> 65535" using assms(2) u3 ch by simp
    then have ug: "unat (?d3 + scast c) = unat ?d3 + nat (sint c)"
      by (rule unat_add_scast[OF c0])
    show ?thesis
    proof (cases "?d3 \<le> threshold")
      case True
      with w r gd show ?thesis
        by (auto simp: IsWithin_def Let_def c_def)
    next
      case False
      then have "unat threshold < unat ?d3" by (simp add: word_le_nat_alt)
      with ug have "unat threshold < unat (?d3 + scast c)" by simp
      then have "\<not> GetDistance cache s t k \<le> threshold"
        by (simp add: gd word_le_nat_alt)
      with False w show ?thesis by (simp add: IsWithin_def Let_def)
    qed
  qed
qed

theorem early_exit_agrees_with_distance_witness:
  "IsWithin exCache [0, 0] [0, 0] 4 200 7 = (True, 128)
   \<and> IsWithin exCache [0, 0] [0, 0] 4 100 7 = (False, 7)"
proof -
  have ch: "chunkDistances exCache [0, 0] [0, 0] 4 = [127, 1]" by code_simp
  have gd: "GetDistance exCache [0, 0] [0, 0] 4 = 128" by code_simp
  have nn: "\<forall>c \<in> set (chunkDistances exCache [0, 0] [0, 0] 4). 0 \<le> sint c"
    by (simp add: ch)
  have bd: "sum_list (map (\<lambda>c. nat (sint c)) (chunkDistances exCache [0, 0] [0, 0] 4)) \<le> 65535"
    by (simp add: ch)
  show ?thesis
    using early_exit_agrees_with_distance[OF nn bd, of 200 7]
      early_exit_agrees_with_distance[OF nn bd, of 100 7]
    by (simp add: gd)
qed

subsection \<open>The distance cache: packing, tables and the naive sum\<close>

lemma of_char_tolower:
  "(of_char (tolower c) :: nat)
     = (if 65 \<le> (of_char c :: nat) \<and> (of_char c :: nat) \<le> 90 then of_char c + 32 else of_char c)"
  by (simp add: tolower_def Let_def of_char_of)

lemma of_char_toupper:
  "(of_char (toupper c) :: nat)
     = (if 97 \<le> (of_char c :: nat) \<and> (of_char c :: nat) \<le> 122 then of_char c - 32 else of_char c)"
proof -
  have "(of_char c :: nat) < 256" by (rule nat_of_char_less_256)
  then have "(of_char c - 32 :: nat) < 256" by arith
  then have "(of_char c - 32 :: nat) mod 256 = of_char c - 32" by (rule mod_less)
  then show ?thesis by (simp add: toupper_def Let_def of_char_of)
qed

lemma tolower_tolower: "tolower (tolower c) = tolower c"
proof -
  have "(of_char (tolower (tolower c)) :: nat) = of_char (tolower c)"
    by (simp add: of_char_tolower)
  then show ?thesis by (simp only: of_char_eq_iff)
qed

lemma tolower_toupper: "tolower (toupper c) = tolower c"
proof -
  have "(of_char (tolower (toupper c)) :: nat) = of_char (tolower c)"
    by (simp add: of_char_tolower of_char_toupper) arith
  then show ?thesis by (simp only: of_char_eq_iff)
qed

lemma lower_or_upper: "c = tolower c \<or> c = toupper c"
proof -
  have "(of_char c :: nat) = of_char (tolower c) \<or> (of_char c :: nat) = of_char (toupper c)"
    by (simp add: of_char_tolower of_char_toupper)
  then show ?thesis by (simp only: of_char_eq_iff)
qed

lemma inverse_prefix:
  assumes "distinct (map tolower syms)" "n \<le> length syms" "i < n"
  shows "foldl (\<lambda>inv i. (inv(tolower (syms ! i) := i mod 256))
                             (toupper (syms ! i) := i mod 256)) (\<lambda>c. 0) [0 ..< n] (syms ! i)
           = i mod 256"
  using assms(2,3)
proof (induction n)
  case 0
  then show ?case by simp
next
  case (Suc n)
  show ?case
  proof (cases "i = n")
    case True
    then show ?thesis using lower_or_upper[of "syms ! n"] by auto
  next
    case False
    with Suc.prems have lt: "i < n" "n < length syms" by auto
    have "(map tolower syms ! i = map tolower syms ! n) = (i = n)"
      by (rule nth_eq_iff_index_eq) (use assms(1) lt in simp_all)
    then have ne: "tolower (syms ! i) \<noteq> tolower (syms ! n)" using lt False by simp
    have "syms ! i \<noteq> tolower (syms ! n)"
      using ne tolower_tolower[of "syms ! n"] by auto
    moreover have "syms ! i \<noteq> toupper (syms ! n)"
      using ne tolower_toupper[of "syms ! n"] by auto
    ultimately show ?thesis using Suc.IH lt by simp
  qed
qed

lemma inverse_symbol:
  assumes "caseDistinct (newAlphabet syms)" "i < length syms" "length syms \<le> 256"
  shows "inverse' (newAlphabet syms) (syms ! i) = i"
  using inverse_prefix[of syms "length syms" i] assms
  by (simp add: caseDistinct_def newAlphabet_def)

lemma overAlphabet_char:
  assumes "caseDistinct (newAlphabet syms)" "length syms \<le> 256" "c \<in> set syms"
  shows "inverse' (newAlphabet syms) c < length syms
       \<and> syms ! (inverse' (newAlphabet syms) c) = c"
proof -
  from assms(3) obtain i where "i < length syms" "syms ! i = c"
    by (auto simp: in_set_conv_nth)
  with inverse_symbol[OF assms(1) this(1) assms(2)] show ?thesis by simp
qed


lemma packWord_Nil [simp]: "packWord a [] = 0"
  by (simp add: packWord_def)

lemma packWord_snoc:
  "packWord a (cs @ [c]) = packWord a cs * Size a + inverse' a c"
  by (simp add: packWord_def)

lemma packWord_bound:
  assumes "\<forall>c \<in> set cs. inverse' a c < Size a"
  shows "packWord a cs < Size a ^ length cs"
  using assms
proof (induction cs rule: rev_induct)
  case Nil
  show ?case by simp
next
  case (snoc c cs)
  then have p: "packWord a cs + 1 \<le> Size a ^ length cs" and i: "inverse' a c + 1 \<le> Size a"
    by auto
  have "(packWord a cs + 1) * Size a \<le> Size a ^ length cs * Size a"
    using p by (rule mult_le_mono1)
  moreover have "packWord a cs * Size a + inverse' a c + 1 \<le> (packWord a cs + 1) * Size a"
    using i by (simp add: algebra_simps)
  ultimately
  have "packWord a cs * Size a + inverse' a c < Size a ^ length cs * Size a" by linarith
  then show ?case by (simp add: packWord_snoc mult.commute)
qed

lemma WordsPerKmer3: "WordsPerKmer k 3 = (k + 2) div 3"
  by (simp add: WordsPerKmer_def)

lemma take_Suc_drop:
  assumes "b + r < length x"
  shows "take (Suc r) (drop b x) = take r (drop b x) @ [x ! (b + r)]"
  using assms by (simp add: take_Suc_conv_app_nth)

lemma encode_prefix:
  fixes a :: Alphabet and x :: string and buf :: EncodedKmer
  defines "W \<equiv> WordsPerKmer (length x) 3"
  assumes "i \<le> length x" "W \<le> length buf" "0 < length x"
  shows "\<exists>code. foldl (encodeStep a x 3 W) (buf[0 := 0], 0) [0 ..< i] = (code, i div 3)
           \<and> length code = length buf
           \<and> (\<forall>w < i div 3. code ! w = word_of_nat (packWord a (chunk x w)))
           \<and> (i div 3 < W \<longrightarrow>
                 code ! (i div 3)
                   = word_of_nat (packWord a (take (i mod 3) (drop (3 * (i div 3)) x))))"
  using assms(2)
proof (induction i)
  case 0
  have "0 < (length x + 2) div 3" using assms(4) by arith
  then have "0 < W" by (simp only: W_def WordsPerKmer3)
  with assms(3) have "0 < length buf" by linarith
  then show ?case by simp
next
  case (Suc i)
  then have ik: "i < length x" by simp
  then have "i div 3 < (length x + 2) div 3" by arith
  then have wi: "i div 3 < W" by (simp only: W_def WordsPerKmer3)
  from Suc obtain code where
    f: "foldl (encodeStep a x 3 W) (buf[0 := 0], 0) [0 ..< i] = (code, i div 3)"
    and len: "length code = length buf"
    and dn: "\<forall>w < i div 3. code ! w = word_of_nat (packWord a (chunk x w))"
    and cur: "code ! (i div 3)
        = word_of_nat (packWord a (take (i mod 3) (drop (3 * (i div 3)) x)))"
    using wi by auto
  define code1 where "code1 = code[i div 3 :=
      code ! (i div 3) * word_of_nat (Size a) + word_of_nat (inverse' a (x ! i))]"
  have idx: "3 * (i div 3) + i mod 3 = i" by simp
  have tk: "take (Suc (i mod 3)) (drop (3 * (i div 3)) x)
      = take (i mod 3) (drop (3 * (i div 3)) x) @ [x ! i]"
    using take_Suc_drop[of "3 * (i div 3)" "i mod 3" x] ik idx by simp
  have c1: "code1 ! (i div 3)
      = word_of_nat (packWord a (take (Suc (i mod 3)) (drop (3 * (i div 3)) x)))"
    using wi assms(3) len by (simp add: code1_def cur tk packWord_snoc)
  have c1o: "\<forall>w < i div 3. code1 ! w = word_of_nat (packWord a (chunk x w))"
    using dn by (simp add: code1_def)
  have l1: "length code1 = length buf" using len by (simp add: code1_def)
  show ?case
  proof (cases "i mod 3 = 2")
    case True
    then have dv: "Suc i div 3 = i div 3 + 1" and md: "Suc i mod 3 = 0" by arith+
    define code2 where "code2 = (if i div 3 + 1 < W then code1[i div 3 + 1 := 0] else code1)"
    have st: "encodeStep a x 3 W (code, i div 3) i = (code2, i div 3 + 1)"
      using True by (auto simp: encodeStep_def Let_def code1_def code2_def)
    have full: "code1 ! (i div 3) = word_of_nat (packWord a (chunk x (i div 3)))"
    proof -
      have "Suc (i mod 3) = 3" using True by simp
      with c1 show ?thesis by (simp only: chunk_def)
    qed
    have a1: "\<forall>w < Suc i div 3. code2 ! w = word_of_nat (packWord a (chunk x w))"
    proof (intro allI impI)
      fix w assume "w < Suc i div 3"
      then consider "w < i div 3" | "w = i div 3" using dv by linarith
      then show "code2 ! w = word_of_nat (packWord a (chunk x w))"
        using c1o full by cases (auto simp: code2_def)
    qed
    have a2: "Suc i div 3 < W \<longrightarrow> code2 ! (Suc i div 3)
        = word_of_nat (packWord a (take (Suc i mod 3) (drop (3 * (Suc i div 3)) x)))"
      using assms(3) l1 by (simp add: dv md code2_def)
    have l2: "length code2 = length buf" using l1 by (simp add: code2_def)
    have "foldl (encodeStep a x 3 W) (buf[0 := 0], 0) [0 ..< Suc i] = (code2, Suc i div 3)"
      using f st dv by simp
    with a1 a2 l2 show ?thesis by blast
  next
    case False
    then have dv: "Suc i div 3 = i div 3" and md: "Suc i mod 3 = Suc (i mod 3)" by arith+
    have st: "encodeStep a x 3 W (code, i div 3) i = (code1, i div 3)"
      using False by (auto simp: encodeStep_def Let_def code1_def)
    have "foldl (encodeStep a x 3 W) (buf[0 := 0], 0) [0 ..< Suc i] = (code1, Suc i div 3)"
      using f st dv by simp
    moreover have "\<forall>w < Suc i div 3. code1 ! w = word_of_nat (packWord a (chunk x w))"
      using c1o dv by simp
    moreover have "code1 ! (Suc i div 3)
        = word_of_nat (packWord a (take (Suc i mod 3) (drop (3 * (Suc i div 3)) x)))"
      using c1 dv md by simp
    ultimately show ?thesis using l1 by blast
  qed
qed

lemma Encode_words:
  assumes "WordsPerKmer (length x) 3 \<le> length buf" "0 < length x"
    and "w < WordsPerKmer (length x) 3"
  shows "Encode a x (length x) 3 buf ! w = word_of_nat (packWord a (chunk x w))"
proof -
  let ?k = "length x"
  from encode_prefix[of ?k x buf a, OF _ assms(1,2)] obtain code where
    f: "foldl (encodeStep a x 3 (WordsPerKmer ?k 3)) (buf[0 := 0], 0) [0 ..< ?k]
          = (code, ?k div 3)"
    and dn: "\<forall>w < ?k div 3. code ! w = word_of_nat (packWord a (chunk x w))"
    and cur: "?k div 3 < WordsPerKmer ?k 3 \<longrightarrow> code ! (?k div 3)
        = word_of_nat (packWord a (take (?k mod 3) (drop (3 * (?k div 3)) x)))"
    by auto
  have e: "Encode a x ?k 3 buf = code" using f by (simp add: Encode_def Let_def)
  from assms(3) have "w < (?k + 2) div 3" by (simp only: WordsPerKmer3)
  then have "w < ?k div 3 \<or> (w = ?k div 3 \<and> ?k mod 3 \<noteq> 0)" by arith
  then consider "w < ?k div 3" | "w = ?k div 3" "?k mod 3 \<noteq> 0"
    by blast
  then show ?thesis
  proof cases
    case 1
    with dn e show ?thesis by simp
  next
    case 2
    have "length (drop (3 * (?k div 3)) x) = ?k mod 3"
      by (simp add: minus_mult_div_eq_mod mult.commute)
    then have "take (?k mod 3) (drop (3 * (?k div 3)) x) = chunk x (?k div 3)"
      by (simp add: chunk_def)
    with cur assms(3) 2 e show ?thesis by simp
  qed
qed


lemma one_word: "0 < m \<Longrightarrow> (m + m - Suc 0) div m = Suc 0"
proof -
  assume m: "0 < m"
  then have "m + m - Suc 0 = (m - Suc 0) + 1 * m" by simp
  then have "(m + m - Suc 0) div m = ((m - Suc 0) + 1 * m) div m" by simp
  also have "\<dots> = (m - Suc 0) div m + 1" using m by (simp only: div_mult_self1) 
  also have "\<dots> = Suc 0" using m by simp
  finally show ?thesis .
qed

lemma decode_prefix:
  assumes "length cs = m" "0 < Size a"
    and "\<forall>c \<in> set cs. inverse' a c < Size a \<and> symbols a ! (inverse' a c) = c"
    and "i \<le> m"
  shows "\<exists>wi. foldl (decodeStep a code m 1) (packWord a cs, 0, [[]]) [0 ..< i]
           = (packWord a (take (m - i) cs), wi, [drop (m - i) cs])"
  using assms(4)
proof (induction i)
  case 0
  then show ?case using assms(1) by simp
next
  case (Suc i)
  then obtain wi where
    f: "foldl (decodeStep a code m 1) (packWord a cs, 0, [[]]) [0 ..< i]
          = (packWord a (take (m - i) cs), wi, [drop (m - i) cs])"
    by auto
  let ?p = "m - Suc i"
  let ?c = "cs ! ?p"
  from Suc.prems assms(1) have p: "?p < length cs" "Suc ?p = m - i" by simp_all
  have tk: "take (m - i) cs = take ?p cs @ [?c]"
    using take_Suc_conv_app_nth[OF p(1)] p(2) by simp
  have dr: "?c # drop (m - i) cs = drop ?p cs"
    using Cons_nth_drop_Suc[OF p(1)] p(2) by simp
  have cin: "?c \<in> set cs" using p(1) by simp
  with assms(3) have c: "inverse' a ?c < Size a" "symbols a ! (inverse' a ?c) = ?c" by auto
  have n: "packWord a (take (m - i) cs) = packWord a (take ?p cs) * Size a + inverse' a ?c"
    by (simp add: tk packWord_snoc)
  have j: "packWord a (take (m - i) cs) mod Size a = inverse' a ?c"
    using c(1) by (simp add: n)
  have n': "(packWord a (take (m - i) cs) - inverse' a ?c) div Size a = packWord a (take ?p cs)"
    using assms(2) by (simp add: n)
  have "\<exists>wi'. decodeStep a code m 1 (packWord a (take (m - i) cs), wi, [drop (m - i) cs]) i
      = (packWord a (take ?p cs), wi', [drop ?p cs])"
    by (simp add: decodeStep_def Let_def j n' c(2) dr)
  with f show ?case by auto
qed

lemma Decode_word:
  assumes "length cs = m" "0 < m" "0 < Size a"
    and "\<forall>c \<in> set cs. inverse' a c < Size a \<and> symbols a ! (inverse' a c) = c"
    and "unat w = packWord a cs"
  shows "Decode a [w] m m = cs"
proof -
  from decode_prefix[OF assms(1,3,4), of m "[w]"] obtain wi where
    "foldl (decodeStep a [w] m 1) (packWord a cs, 0, [[]]) [0 ..< m] = (packWord a [], wi, [cs])"
    by auto
  then show ?thesis using assms(2,5) by (simp add: Decode_def Let_def one_word)
qed


lemma foldl_concat_map:
  "foldl f a (concat (map g xs)) = foldl (\<lambda>a x. foldl f a (g x)) a xs"
  by (induction xs arbitrary: a) simp_all

lemma in_concat_map: "x \<in> set (concat (map f xs)) \<longleftrightarrow> (\<exists>y \<in> set xs. x \<in> set (f y))"
  by auto

lemma writes_length:
  "length (foldl (\<lambda>t (k, v). t[k := v]) t ws) = length t"
  by (induction ws arbitrary: t) (simp_all add: case_prod_unfold)

lemma writes_lookup:
  assumes "\<forall>(k, v) \<in> set ws. v = h k" "k \<in> fst ` set ws" "k < length t"
  shows "foldl (\<lambda>t (k, v). t[k := v]) t ws ! k = h k"
  using assms(1,2)
proof (induction ws rule: rev_induct)
  case Nil
  then show ?case by simp
next
  case (snoc kv ws)
  obtain k' v' where kv: "kv = (k', v')" by (cases kv)
  from snoc.prems(1) kv have v': "v' = h k'" by simp
  have len: "k < length (foldl (\<lambda>t (k, v). t[k := v]) t ws)"
    using assms(3) by (simp add: writes_length)
  show ?case
  proof (cases "k = k'")
    case True
    with len v' kv show ?thesis by simp
  next
    case False
    with snoc.prems(2) kv have "k \<in> fst ` set ws" by auto
    moreover from snoc.prems(1) have "\<forall>(k, v) \<in> set ws. v = h k" by simp
    ultimately have "foldl (\<lambda>t (k, v). t[k := v]) t ws ! k = h k" by (rule snoc.IH[rotated])
    with False kv show ?thesis by simp
  qed
qed

lemma precomputeRow_writes:
  "precomputeRow raw m vocab V tbl i
     = foldl (\<lambda>t (k, v). t[k := v]) tbl
         (concat (map (\<lambda>j. [(i * V + j, ucast (raw (vocab ! i) (vocab ! j) m)),
                              (j * V + i, ucast (raw (vocab ! i) (vocab ! j) m))])
                    [0 ..< i + 1]))"
  by (simp only: foldl_concat_map) (simp add: precomputeRow_def Let_def)

lemma table_writes:
  "foldl (precomputeRow raw m vocab V) tbl is
     = foldl (\<lambda>t (k, v). t[k := v]) tbl
         (concat (map (\<lambda>i. concat (map (\<lambda>j.
              [(i * V + j, ucast (raw (vocab ! i) (vocab ! j) m)),
               (j * V + i, ucast (raw (vocab ! i) (vocab ! j) m))]) [0 ..< i + 1])) is))"
proof -
  let ?G = "\<lambda>i. concat (map (\<lambda>j.
              [(i * V + j, (ucast (raw (vocab ! i) (vocab ! j) m) :: CacheType)),
               (j * V + i, ucast (raw (vocab ! i) (vocab ! j) m))]) [0 ..< i + 1])"
  have "foldl (\<lambda>t (k, v). t[k := v]) tbl (concat (map ?G is))
      = foldl (\<lambda>t i. foldl (\<lambda>t (k, v). t[k := v]) t (?G i)) tbl is"
    by (rule foldl_concat_map)
  also have "\<dots> = foldl (precomputeRow raw m vocab V) tbl is"
    by (simp only: precomputeRow_writes[symmetric])
  finally show ?thesis by (rule sym)
qed

lemma table_cell:
  fixes raw :: RawKmerDistanceFunction
  assumes "p < V" "q < V"
  shows "foldl (precomputeRow raw m vocab V) (replicate (V * V) 0) [0 ..< V] ! (p * V + q)
     = ucast (raw (vocab ! max p q) (vocab ! min p q) m)"
proof -
  let ?g = "\<lambda>i j. (ucast (raw (vocab ! i) (vocab ! j) m) :: CacheType)"
  let ?h = "\<lambda>k. ?g (max (k div V) (k mod V)) (min (k div V) (k mod V))"
  let ?ws = "concat (map (\<lambda>i. concat (map (\<lambda>j. [(i * V + j, ?g i j), (j * V + i, ?g i j)])
                [0 ..< i + 1])) [0 ..< V])"
  have cons: "\<forall>(k, v) \<in> set ?ws. v = ?h k"
  proof -
    { fix k v assume "(k, v) \<in> set ?ws"
      then obtain i j where i: "i \<in> set [0 ..< V]" and j: "j \<in> set [0 ..< i + 1]"
        and kv: "(k, v) \<in> set [(i * V + j, ?g i j), (j * V + i, ?g i j)]"
        unfolding in_concat_map by blast
      from i j have ij: "i < V" "j \<le> i" "j < V" by auto
      then have dm: "(i * V + j) div V = i" "(i * V + j) mod V = j"
        "(j * V + i) div V = j" "(j * V + i) mod V = i" by simp_all
      from ij have mm: "max i j = i" "min i j = j" "max j i = i" "min j i = j"
        by simp_all
      from kv have "(k = i * V + j \<or> k = j * V + i) \<and> v = ?g i j" by auto
      then have "v = ?h k" using dm mm by auto }
    then show ?thesis by blast
  qed
  have cov: "p * V + q \<in> fst ` set ?ws"
  proof (cases "q \<le> p")
    case True
    have "\<exists>i \<in> set [0 ..< V]. \<exists>j \<in> set [0 ..< i + 1].
        (p * V + q, ?g p q) \<in> set [(i * V + j, ?g i j), (j * V + i, ?g i j)]"
      by (rule bexI[of _ p], rule bexI[of _ q]) (use True assms in auto)
    then have "(p * V + q, ?g p q) \<in> set ?ws" by (simp only: in_concat_map)
    then show ?thesis by (rule image_eqI[rotated]) simp
  next
    case False
    then have pq: "p \<le> q" by simp
    have "\<exists>i \<in> set [0 ..< V]. \<exists>j \<in> set [0 ..< i + 1].
        (p * V + q, ?g q p) \<in> set [(i * V + j, ?g i j), (j * V + i, ?g i j)]"
      by (rule bexI[of _ q], rule bexI[of _ p]) (use pq assms in auto)
    then have "(p * V + q, ?g q p) \<in> set ?ws" by (simp only: in_concat_map)
    then show ?thesis by (rule image_eqI[rotated]) simp
  qed
  have lt: "p * V + q < length (replicate (V * V) (0 :: CacheType))"
  proof -
    have "p * V + q < p * V + V" using assms by simp
    also have "\<dots> = (p + 1) * V" by simp
    also have "\<dots> \<le> V * V"
    proof -
      have "p + 1 \<le> V" using assms by simp
      then show ?thesis by (rule mult_le_mono1)
    qed
    finally show ?thesis by simp
  qed
  have "foldl (\<lambda>t (k, v). t[k := v]) (replicate (V * V) 0) ?ws ! (p * V + q) = ?h (p * V + q)"
    by (rule writes_lookup[OF cons cov lt])
  moreover have "(p * V + q) div V = p" "(p * V + q) mod V = q" using assms by simp_all
  ultimately show ?thesis by (simp only: table_writes)
qed

lemma vocabSize_power:
  "foldl (\<lambda>v i. v * l) (l :: 32 word) [1 ..< Suc n] = l ^ Suc n"
proof (induction n)
  case 0
  show ?case by simp
next
  case (Suc n)
  have "[1 ..< Suc (Suc n)] = [1 ..< Suc n] @ [Suc n]" by simp
  then show ?case using Suc by (simp only: foldl_append) (simp add: mult.commute)
qed

lemma PrecomputeDistances_ok:
  assumes "0 < m" "Size a ^ m \<le> 65535"
  shows "PrecomputeDistances a raw m
     = Inr (foldl (precomputeRow raw m
                     (map (\<lambda>i. Decode a [word_of_nat i] m m) [0 ..< Size a ^ m]) (Size a ^ m))
              (replicate (Size a ^ m * Size a ^ m) 0) [0 ..< Size a ^ m],
            Size a ^ m)"
proof -
  from assms(1) obtain n where m: "m = Suc n" by (cases m) auto
  have v: "foldl (\<lambda>v i. v * word_of_nat (Size a)) (word_of_nat (Size a) :: 32 word) [1 ..< m]
      = word_of_nat (Size a ^ m)"
    by (simp only: m vocabSize_power) simp
  have "Size a ^ m < 2 ^ LENGTH(32)" using assms(2) by simp
  then have u: "unat (word_of_nat (Size a ^ m) :: 32 word) = Size a ^ m"
    by (simp only: unat_of_nat mod_less)
  then have le: "(word_of_nat (Size a ^ m) :: 32 word) \<le> 65535"
    using assms(2) by (simp add: word_le_nat_alt)
  show ?thesis
    unfolding PrecomputeDistances_def Let_def v using le u by simp
qed


lemma foldl_scast_sum:
  "foldl (\<lambda>d c. d + f c) (acc :: Distance) cs = acc + sum_list (map f cs)"
  by (induction cs arbitrary: acc) (simp_all add: add.assoc)

lemma chunk_length: "length (chunk x i) = min 3 (length x - 3 * i)"
  by (simp add: chunk_def)

lemma chunk_set: "set (chunk x i) \<subseteq> set x"
proof -
  have "set (chunk x i) \<subseteq> set (drop (3 * i) x)" unfolding chunk_def by (rule set_take_subset)
  also have "\<dots> \<subseteq> set x" by (rule set_drop_subset)
  finally show ?thesis .
qed

lemma unat_packWord:
  assumes "\<forall>c \<in> set cs. inverse' a c < Size a" "Size a ^ length cs \<le> 65535"
  shows "unat (word_of_nat (packWord a cs) :: KmerWord) = packWord a cs"
proof -
  have "packWord a cs < Size a ^ length cs" by (rule packWord_bound[OF assms(1)])
  with assms(2) have "packWord a cs < 2 ^ LENGTH(16)" by simp
  then show ?thesis by (simp only: unat_of_nat mod_less)
qed

lemma cache_cell:
  fixes raw :: RawKmerDistanceFunction
  assumes cd: "caseDistinct (newAlphabet syms)" and small: "length syms \<le> 256"
    and sz: "length syms ^ m \<le> 65535" and m: "0 < m"
    and sym: "\<forall>u v n. raw u v n = raw v u n"
    and cx: "length cx = m" "set cx \<subseteq> set syms"
    and cy: "length cy = m" "set cy \<subseteq> set syms"
    and pd: "PrecomputeDistances (newAlphabet syms) raw m = Inr (tbl, V)"
  shows "tbl ! (unat (word_of_nat (packWord (newAlphabet syms) cx) :: KmerWord) * V
               + unat (word_of_nat (packWord (newAlphabet syms) cy) :: KmerWord))
           = ucast (raw cx cy m)"
proof -
  let ?a = "newAlphabet syms"
  have size: "Size ?a = length syms" and symb: "symbols ?a = syms"
    by (simp_all add: Size_def newAlphabet_def)
  have ok: "\<forall>c \<in> set syms. inverse' ?a c < Size ?a \<and> symbols ?a ! (inverse' ?a c) = c"
    using overAlphabet_char[OF cd small] by (simp add: size symb)
  from cx m have "cx \<noteq> []" by auto
  with cx(2) have "syms \<noteq> []" by auto
  then have pos: "0 < Size ?a" by (simp add: size)
  have okx: "\<forall>c \<in> set cx. inverse' ?a c < Size ?a \<and> symbols ?a ! (inverse' ?a c) = c"
    and oky: "\<forall>c \<in> set cy. inverse' ?a c < Size ?a \<and> symbols ?a ! (inverse' ?a c) = c"
    using ok cx(2) cy(2) by auto
  let ?px = "packWord ?a cx" and ?py = "packWord ?a cy"
  let ?V = "Size ?a ^ m"
  let ?vocab = "map (\<lambda>i. Decode ?a [word_of_nat i] m m) [0 ..< ?V]"
  have szm: "Size ?a ^ m \<le> 65535" using sz by (simp add: size)
  have ux: "unat (word_of_nat ?px :: KmerWord) = ?px"
    using unat_packWord[of cx ?a] okx szm cx(1) by simp
  have uy: "unat (word_of_nat ?py :: KmerWord) = ?py"
    using unat_packWord[of cy ?a] oky szm cy(1) by simp
  have bx: "?px < ?V" using packWord_bound[of cx ?a] okx cx(1) by simp
  have by': "?py < ?V" using packWord_bound[of cy ?a] oky cy(1) by simp
  have vx: "?vocab ! ?px = cx"
    using bx Decode_word[OF cx(1) m pos okx ux] by simp
  have vy: "?vocab ! ?py = cy"
    using by' Decode_word[OF cy(1) m pos oky uy] by simp
  have "Inr (tbl, V)
      = (Inr (foldl (precomputeRow raw m ?vocab ?V) (replicate (?V * ?V) 0) [0 ..< ?V], ?V)
          :: error + (CacheType list \<times> nat))"
    using pd[symmetric] PrecomputeDistances_ok[OF m szm, of raw] by (rule trans)
  then have
    tbl: "tbl = foldl (precomputeRow raw m ?vocab ?V) (replicate (?V * ?V) 0) [0 ..< ?V]"
    and V: "V = ?V" by simp_all
  have "tbl ! (?px * V + ?py) = ucast (raw (?vocab ! max ?px ?py) (?vocab ! min ?px ?py) m)"
    unfolding tbl V by (rule table_cell[OF bx by'])
  also have "\<dots> = ucast (raw cx cy m)"
  proof (cases "?py \<le> ?px")
    case True
    then have "max ?px ?py = ?px" "min ?px ?py = ?py" by simp_all
    then show ?thesis by (simp only: vx vy)
  next
    case False
    then have "max ?px ?py = ?py" "min ?px ?py = ?px" by simp_all
    then have "raw (?vocab ! max ?px ?py) (?vocab ! min ?px ?py) m = raw cy cx m"
      by (simp only: vx vy)
    also have "\<dots> = raw cx cy m" using sym by simp
    finally show ?thesis by simp
  qed
  finally show ?thesis by (simp only: ux uy)
qed


lemma small_alphabet:
  assumes "(n :: nat) ^ 3 \<le> 65535"
  shows "n \<le> 256" "0 < n \<Longrightarrow> n ^ 1 \<le> 65535" "0 < n \<Longrightarrow> n ^ 2 \<le> 65535"
proof -
  show "n \<le> 256"
  proof (rule ccontr)
    assume "\<not> n \<le> 256"
    then have "257 \<le> n" by simp
    then have "(257 :: nat) ^ 3 \<le> n ^ 3" by (rule power_mono) simp
    with assms show False by simp
  qed
  assume n: "0 < n"
  then have "1 \<le> n" by simp
  then have "n ^ 1 \<le> n ^ 3" "n ^ 2 \<le> n ^ 3"
    using power_increasing[of 1 3 n] power_increasing[of 2 3 n] by simp_all
  with assms show "n ^ 1 \<le> 65535" "n ^ 2 \<le> 65535" by linarith+
qed


lemma UngappedEditDistance_sym: "UngappedEditDistance u v n = UngappedEditDistance v u n"
proof -
  have "(\<lambda>diffs i. if u ! i \<noteq> v ! i then diffs + 1 else diffs)
      = (\<lambda>(diffs :: nat) i. if v ! i \<noteq> u ! i then diffs + 1 else diffs)"
    by (auto simp: fun_eq_iff)
  then show ?thesis by (simp only: UngappedEditDistance_def)
qed

text \<open>
  \<^verbatim>\<open>PrecomputeDistances\<close> evaluates the raw distance only for \<open>j \<le> i\<close> and stores the value
  in both cells \<open>(i, j)\<close> and \<open>(j, i)\<close>. For the alphabet \<open>ac\<close> and a raw distance with
  \<open>d(a, c) = 1\<close> and \<open>d(c, a) = 2\<close>, \<^verbatim>\<open>GetDistance\<close> on the codes of \<open>a\<close> and \<open>c\<close> returns
  2, the raw distance is 1.
\<close>

theorem mirrored_table_returns_reverse_distance:
  "caseDistinct (newAlphabet ''ac'')
   \<and> overAlphabet (newAlphabet ''ac'') ''a'' \<and> overAlphabet (newAlphabet ''ac'') ''c''
   \<and> chunksFit exRawAsym ''a'' ''c'' 1
   \<and> map_sum id (\<lambda>cache. GetDistance cache (Encode (newAlphabet ''ac'') ''a'' 1 3 [0])
                              (Encode (newAlphabet ''ac'') ''c'' 1 3 [0]) 1)
        (newKmerDistanceCache3 (newAlphabet ''ac'') exRawAsym) = Inr 2
   \<and> naiveDistance exRawAsym ''a'' ''c'' 1 = 1"
  by code_simp

text \<open>
  Claim C5. For an alphabet whose symbols are distinct when case is ignored and whose words
  of three symbols fit a \<^verbatim>\<open>KmerWord\<close>, a raw distance that is symmetric, and two strings
  \<open>x\<close> and \<open>y\<close> of the same length \<open>k \<ge> 1\<close> over the alphabet, packed at 3 characters per
  word: the construction of the cache succeeds, and \<^verbatim>\<open>GetDistance\<close> on the two codes equals
  the sum, in a \<^verbatim>\<open>Distance\<close>, of the raw distances of the successive chunks of \<open>x\<close> and
  \<open>y\<close> (chunks of 3 characters and a last chunk of \<open>k mod 3\<close> characters when that is not
  zero), provided that the raw distance of every chunk fits a table cell (is at most 127).
\<close>

theorem cache_distance_is_sum_of_chunk_distances:
  fixes raw :: RawKmerDistanceFunction
  assumes cd: "caseDistinct (newAlphabet syms)"
    and sz: "Size (newAlphabet syms) ^ 3 \<le> 65535"
    and sym: "\<forall>u v n. raw u v n = raw v u n"
    and k: "0 < k" "length x = k" "length y = k"
    and ov: "overAlphabet (newAlphabet syms) x" "overAlphabet (newAlphabet syms) y"
    and fit: "chunksFit raw x y k"
    and buf: "WordsPerKmer k 3 \<le> length bufx" "WordsPerKmer k 3 \<le> length bufy"
  shows "\<exists>cache. newKmerDistanceCache3 (newAlphabet syms) raw = Inr cache
           \<and> GetDistance cache (Encode (newAlphabet syms) x k 3 bufx)
                 (Encode (newAlphabet syms) y k 3 bufy) k
               = naiveDistance raw x y k"
proof -
  let ?a = "newAlphabet syms"
  let ?W = "WordsPerKmer k 3"
  let ?xC = "Encode ?a x k 3 bufx" and ?yC = "Encode ?a y k 3 bufy"
  have size: "Size ?a = length syms" and symb: "symbols ?a = syms"
    by (simp_all add: Size_def newAlphabet_def)
  have sx: "set x \<subseteq> set syms" and sy: "set y \<subseteq> set syms"
    using ov by (auto simp: overAlphabet_def list_all_iff symb)
  from k have "x \<noteq> []" by auto
  with sx have "syms \<noteq> []" by auto
  then have pos: "0 < length syms" by simp
  have sz3: "length syms ^ 3 \<le> 65535" using sz by (simp only: size)
  have small: "length syms \<le> 256" and sz1: "length syms ^ 1 \<le> 65535"
    and sz2: "length syms ^ 2 \<le> 65535"
    using small_alphabet[OF sz3] pos by simp_all
  define t1 where "t1 = fst (projr (PrecomputeDistances ?a raw 1))"
  define t2 where "t2 = fst (projr (PrecomputeDistances ?a raw 2))"
  define t3 where "t3 = fst (projr (PrecomputeDistances ?a raw 3))"
  let ?V1 = "Size ?a ^ 1" and ?V2 = "Size ?a ^ 2" and ?V3 = "Size ?a ^ 3"
  have p1: "PrecomputeDistances ?a raw 1 = Inr (t1, ?V1)"
    using PrecomputeDistances_ok[of 1 ?a raw] sz1 by (simp add: t1_def size)
  have p2: "PrecomputeDistances ?a raw 2 = Inr (t2, ?V2)"
    using PrecomputeDistances_ok[of 2 ?a raw] sz2 by (simp add: t2_def size)
  have p3: "PrecomputeDistances ?a raw 3 = Inr (t3, ?V3)"
    using PrecomputeDistances_ok[of 3 ?a raw] sz3 by (simp add: t3_def size)
  define cache where "cache = \<lparr>kmerDistances1 = t1, vocabSize1 = ?V1,
      kmerDistances2 = t2, vocabSize2 = ?V2, kmerDistances3 = t3, vocabSize3 = ?V3\<rparr>"
  have new: "newKmerDistanceCache3 ?a raw = Inr cache"
    by (simp only: newKmerDistanceCache3_def p1 p2 p3 cache_def sum.case prod.case)
  have xw: "\<And>i. i < ?W \<Longrightarrow> ?xC ! i = word_of_nat (packWord ?a (chunk x i))"
    using Encode_words[of x bufx _ ?a] k buf by simp
  have yw: "\<And>i. i < ?W \<Longrightarrow> ?yC ! i = word_of_nat (packWord ?a (chunk y i))"
    using Encode_words[of y bufy _ ?a] k buf by simp
  have cell: "tbl ! (unat (?xC ! i) * V + unat (?yC ! i))
      = ucast (raw (chunk x i) (chunk y i) m)"
    if "i < ?W" "length (chunk x i) = m" "0 < m" "length syms ^ m \<le> 65535"
      "PrecomputeDistances ?a raw m = Inr (tbl, V)" for i m tbl V
  proof -
    have ly: "length (chunk y i) = m" using that(2) k by (simp add: chunk_length)
    have cx: "set (chunk x i) \<subseteq> set syms" using chunk_set[of x i] sx by blast
    have cy: "set (chunk y i) \<subseteq> set syms" using chunk_set[of y i] sy by blast
    show ?thesis
      unfolding xw[OF that(1)] yw[OF that(1)]
      by (rule cache_cell[OF cd small that(4) that(3) sym that(2) cx ly cy that(5)])
  qed
  let ?r = "\<lambda>i. raw (chunk x i) (chunk y i) (length (chunk x i))"
  have W: "?W = (k + 2) div 3" by (rule WordsPerKmer3)
  have threes: "lookup3 cache ?xC ?yC i = ucast (?r i)" if "i < k div 3" for i
  proof -
    from that have "i < ?W" unfolding W by arith
    moreover from that have "3 \<le> k - 3 * i" by arith
    then have "length (chunk x i) = 3" using k by (simp add: chunk_length)
    ultimately show ?thesis
      using cell[of i 3 t3 ?V3] sz3 p3 by (simp add: lookup3_def cache_def)
  qed
  have m3: "map (lookup3 cache ?xC ?yC) [0 ..< k div 3] = map (\<lambda>i. ucast (?r i)) [0 ..< k div 3]"
    by (rule map_cong) (simp_all add: threes)
  have ch: "chunkDistances cache ?xC ?yC k = map (\<lambda>i. ucast (?r i)) [0 ..< ?W]"
  proof -
    consider (z) "k mod 3 = 0" | (o) "k mod 3 = 1" | (t) "k mod 3 = 2" by arith
    then show ?thesis
    proof cases
      case z
      then have "?W = k div 3" unfolding W by arith
      with z m3 show ?thesis by (simp add: chunkDistances_def)
    next
      case o
      then have w: "?W = Suc (k div 3)" unfolding W by arith
      have l: "length (chunk x (k div 3)) = 1" using o k by (simp add: chunk_length) arith
      have "lookup1 cache ?xC ?yC (k div 3) = ucast (?r (k div 3))"
        using cell[of "k div 3" 1 t1 ?V1] w l sz1 p1 by (simp add: lookup1_def cache_def)
      with o m3 w show ?thesis by (simp add: chunkDistances_def)
    next
      case t
      then have w: "?W = Suc (k div 3)" unfolding W by arith
      have l: "length (chunk x (k div 3)) = 2" using t k by (simp add: chunk_length) arith
      have "lookup2 cache ?xC ?yC (k div 3) = ucast (?r (k div 3))"
        using cell[of "k div 3" 2 t2 ?V2] w l sz2 p2 by (simp add: lookup2_def cache_def)
      with t m3 w show ?thesis by (simp add: chunkDistances_def)
    qed
  qed
  have bk: "map (\<lambda>i. scast (ucast (?r i) :: CacheType)) [0 ..< ?W] = map ?r [0 ..< ?W]"
  proof (rule map_cong)
    fix i assume "i \<in> set [0 ..< ?W]"
    with fit have "unat (?r i) \<le> 127" by (simp add: chunksFit_def list_all_iff)
    then show "scast (ucast (?r i) :: CacheType) = ?r i" by (rule scast_ucast_small)
  qed simp
  have "GetDistance cache ?xC ?yC k
      = sum_list (map (\<lambda>c. scast c) (map (\<lambda>i. (ucast (?r i) :: CacheType)) [0 ..< ?W]))"
    by (simp only: GetDistance_chunks ch foldl_scast_sum) simp
  also have "\<dots> = sum_list (map ?r [0 ..< ?W])"
    by (simp only: map_map comp_def bk)
  finally have "GetDistance cache ?xC ?yC k = naiveDistance raw x y k"
    by (simp add: naiveDistance_def)
  with new show ?thesis by blast
qed

theorem cache_distance_is_sum_of_chunk_distances_witness:
  "\<exists>cache. newKmerDistanceCache3 (newAlphabet ''ac'') UngappedEditDistance = Inr cache
     \<and> GetDistance cache (Encode (newAlphabet ''ac'') ''acca'' 4 3 [0, 0])
          (Encode (newAlphabet ''ac'') ''aaca'' 4 3 [0, 0]) 4 = 1"
proof -
  have cd: "caseDistinct (newAlphabet ''ac'')" by code_simp
  have sz: "Size (newAlphabet ''ac'') ^ 3 \<le> 65535" by code_simp
  have sym: "\<forall>u v n. UngappedEditDistance u v n = UngappedEditDistance v u n"
    using UngappedEditDistance_sym by blast
  have k: "0 < (4 :: nat)" "length ''acca'' = 4" "length ''aaca'' = 4" by simp_all
  have ov: "overAlphabet (newAlphabet ''ac'') ''acca''" "overAlphabet (newAlphabet ''ac'') ''aaca''"
    by code_simp+
  have fit: "chunksFit UngappedEditDistance ''acca'' ''aaca'' 4" by code_simp
  have buf: "WordsPerKmer 4 3 \<le> length [0 :: KmerWord, 0]" by code_simp
  have nd: "naiveDistance UngappedEditDistance ''acca'' ''aaca'' 4 = 1" by code_simp
  show ?thesis
    using cache_distance_is_sum_of_chunk_distances[OF cd sz sym k ov fit buf buf]
    unfolding nd .
qed

end
